theory Spec2Isabelle
  imports Complex_Main
begin

section \<open>JavaScript numbers\<close>

text \<open>
  The simulation engine of \<^verbatim>\<open>ArtifactCode.jsx\<close> computes with JavaScript numbers.
  A finite number is a real, and the three non-finite values that division by zero,
  overflow, the logarithm and the square root can produce are separate constructors.
  The operations \<open>js_add\<close>, \<open>js_mul\<close>, ... are the exact operations on these values:
  no rounding and no overflow. An operation of the code is the exact operation
  followed by the rounding to a double (\<open>double_add\<close>, \<open>double_mul\<close>, ..., in the
  section on double-precision rounding). The sampling loop and its statistics are
  written with the exact operations; the distance, the normalization and the
  histogram are also written with the rounded ones, and every statement that depends
  on rounding is about those. The sign of zero is not modelled (a zero divisor counts
  as \<open>+0\<close>).
\<close>

datatype number = Num real | PosInf | NegInf | NaN

fun js_neg :: "number \<Rightarrow> number" where
  "js_neg (Num a) = Num (- a)"
| "js_neg PosInf = NegInf"
| "js_neg NegInf = PosInf"
| "js_neg NaN = NaN"

fun js_add :: "number \<Rightarrow> number \<Rightarrow> number" where
  "js_add (Num a) (Num b) = Num (a + b)"
| "js_add NaN _ = NaN"
| "js_add _ NaN = NaN"
| "js_add PosInf NegInf = NaN"
| "js_add NegInf PosInf = NaN"
| "js_add PosInf _ = PosInf"
| "js_add _ PosInf = PosInf"
| "js_add NegInf _ = NegInf"
| "js_add _ NegInf = NegInf"

definition js_sub :: "number \<Rightarrow> number \<Rightarrow> number" where
  "js_sub a b = js_add a (js_neg b)"

text \<open>The sign of a non-finite product or quotient: \<open>True\<close> is positive.\<close>

fun js_signed_inf :: "bool \<Rightarrow> number" where
  "js_signed_inf True = PosInf"
| "js_signed_inf False = NegInf"

fun js_mul :: "number \<Rightarrow> number \<Rightarrow> number" where
  "js_mul (Num a) (Num b) = Num (a * b)"
| "js_mul NaN _ = NaN"
| "js_mul _ NaN = NaN"
| "js_mul PosInf (Num b) = (if b = 0 then NaN else js_signed_inf (0 < b))"
| "js_mul NegInf (Num b) = (if b = 0 then NaN else js_signed_inf (b < 0))"
| "js_mul (Num a) PosInf = (if a = 0 then NaN else js_signed_inf (0 < a))"
| "js_mul (Num a) NegInf = (if a = 0 then NaN else js_signed_inf (a < 0))"
| "js_mul PosInf PosInf = PosInf"
| "js_mul NegInf NegInf = PosInf"
| "js_mul PosInf NegInf = NegInf"
| "js_mul NegInf PosInf = NegInf"

fun js_div :: "number \<Rightarrow> number \<Rightarrow> number" where
  "js_div (Num a) (Num b) =
     (if b = 0 then (if a = 0 then NaN else js_signed_inf (0 < a)) else Num (a / b))"
| "js_div NaN _ = NaN"
| "js_div _ NaN = NaN"
| "js_div (Num a) _ = Num 0"
| "js_div PosInf (Num b) = js_signed_inf (0 \<le> b)"
| "js_div NegInf (Num b) = js_signed_inf (b < 0)"
| "js_div _ _ = NaN"

text \<open>\<^verbatim>\<open>Math.sqrt\<close>, \<^verbatim>\<open>Math.log\<close>, \<^verbatim>\<open>Math.cos\<close>, \<^verbatim>\<open>Math.floor\<close>.\<close>

fun js_sqrt :: "number \<Rightarrow> number" where
  "js_sqrt (Num a) = (if a < 0 then NaN else Num (sqrt a))"
| "js_sqrt PosInf = PosInf"
| "js_sqrt _ = NaN"

fun js_log :: "number \<Rightarrow> number" where
  "js_log (Num a) = (if a < 0 then NaN else if a = 0 then NegInf else Num (ln a))"
| "js_log PosInf = PosInf"
| "js_log _ = NaN"

fun js_cos :: "number \<Rightarrow> number" where
  "js_cos (Num a) = Num (cos a)"
| "js_cos _ = NaN"

fun js_floor :: "number \<Rightarrow> number" where
  "js_floor (Num a) = Num (of_int \<lfloor>a\<rfloor>)"
| "js_floor x = x"

text \<open>Comparisons: every comparison with \<open>NaN\<close> is false.\<close>

fun js_lt :: "number \<Rightarrow> number \<Rightarrow> bool" where
  "js_lt (Num a) (Num b) = (a < b)"
| "js_lt NaN _ = False"
| "js_lt _ NaN = False"
| "js_lt _ NegInf = False"
| "js_lt PosInf _ = False"
| "js_lt _ _ = True"

definition js_ge :: "number \<Rightarrow> number \<Rightarrow> bool" where
  "js_ge a b = (a \<noteq> NaN \<and> b \<noteq> NaN \<and> \<not> js_lt a b)"

text \<open>\<^verbatim>\<open>Math.min\<close> and \<^verbatim>\<open>Math.max\<close> return \<open>NaN\<close> when an argument is \<open>NaN\<close>.\<close>

definition js_min :: "number \<Rightarrow> number \<Rightarrow> number" where
  "js_min a b = (if a = NaN \<or> b = NaN then NaN else if js_lt b a then b else a)"

definition js_max :: "number \<Rightarrow> number \<Rightarrow> number" where
  "js_max a b = (if a = NaN \<or> b = NaN then NaN else if js_lt a b then b else a)"

section \<open>Double-precision rounding\<close>

text \<open>
  A double is a real of the form \<open>m * 2 ^ e\<close> with \<open>\<bar>m\<bar> < 2 ^ 53\<close> and \<open>- 1074 \<le> e\<close>.
  The doubles around a real \<open>x\<close> with \<open>2 ^ k \<le> \<bar>x\<bar> < 2 ^ (k + 1)\<close> are the multiples of
  \<open>2 ^ (k - 52)\<close>, and of \<open>2 ^ (- 1074)\<close> below \<open>2 ^ (- 1022)\<close> (the subnormal range).
  \<open>round_double\<close> takes a real to the nearest of them, a tie to the one with the even
  multiplier (IEEE 754 round-to-nearest, ties-to-even, the rounding of every
  arithmetic operation of JavaScript).
\<close>

definition round_half_even :: "real \<Rightarrow> int" where
  "round_half_even y =
     (let f = \<lfloor>y\<rfloor>; r = y - of_int f
      in if r < 1 / 2 then f else if 1 / 2 < r then f + 1 else if even f then f else f + 1)"

definition double_exponent :: "real \<Rightarrow> int" where
  "double_exponent x = max \<lfloor>log 2 \<bar>x\<bar>\<rfloor> (- 1022)"

definition double_ulp :: "real \<Rightarrow> real" where
  "double_ulp x = 2 powr (of_int (double_exponent x) - 52)"

definition round_double :: "real \<Rightarrow> real" where
  "round_double x =
     (if x = 0 then 0 else of_int (round_half_even (x / double_ulp x)) * double_ulp x)"

text \<open>
  A result whose rounding reaches \<open>2 ^ 1024\<close> in magnitude overflows to the infinity of
  its sign; the non-finite values are not rounded.
\<close>

definition js_round :: "number \<Rightarrow> number" where
  "js_round v =
     (case v of
        Num x \<Rightarrow> (if 2 ^ 1024 \<le> \<bar>round_double x\<bar> then js_signed_inf (0 < x)
                  else Num (round_double x))
      | _ \<Rightarrow> v)"

text \<open>
  The arithmetic of the code: \<^verbatim>\<open>+\<close>, \<^verbatim>\<open>-\<close>, \<^verbatim>\<open>*\<close>, \<^verbatim>\<open>/\<close> and \<^verbatim>\<open>Math.sqrt\<close> return the
  rounding of the exact result. \<^verbatim>\<open>Math.floor\<close>, \<^verbatim>\<open>Math.min\<close>, \<^verbatim>\<open>Math.max\<close> and the
  comparisons are exact on doubles. \<^verbatim>\<open>Math.sqrt\<close> is taken as the correctly rounded
  square root of IEEE 754, which the engines provide. \<^verbatim>\<open>Math.log\<close> and \<^verbatim>\<open>Math.cos\<close>
  have no rounded counterpart here: their results are approximations chosen by the
  implementation.
\<close>

definition double_add :: "number \<Rightarrow> number \<Rightarrow> number" where
  "double_add a b = js_round (js_add a b)"

definition double_sub :: "number \<Rightarrow> number \<Rightarrow> number" where
  "double_sub a b = js_round (js_sub a b)"

definition double_mul :: "number \<Rightarrow> number \<Rightarrow> number" where
  "double_mul a b = js_round (js_mul a b)"

definition double_div :: "number \<Rightarrow> number \<Rightarrow> number" where
  "double_div a b = js_round (js_div a b)"

definition double_sqrt :: "number \<Rightarrow> number" where
  "double_sqrt a = js_round (js_sqrt a)"

section \<open>The dimension-aware normalization\<close>

text \<open>
  Lines 104 to 108 of the sampling loop: the clamp of the raw distance, the scaling
  factor and the normalized distance.
  \<^verbatim>\<open>
  const clampedDistance = Math.max(0, Math.min(2, originalDistance));
  const scalingFactor = dim <= 3 ? Math.sqrt(dim) * 1.5 : Math.sqrt(dim);
  const normalizedDistance = (clampedDistance - 1.0) * scalingFactor + 1.0;
  \<close>
\<close>

definition clampDistance :: "number \<Rightarrow> number" where
  "clampDistance originalDistance = js_max (Num 0) (js_min (Num 2) originalDistance)"

definition scalingFactor :: "nat \<Rightarrow> number" where
  "scalingFactor d =
     (if d \<le> 3 then js_mul (js_sqrt (Num (real d))) (Num 1.5)
      else js_sqrt (Num (real d)))"

definition normalizedDistance_of :: "number \<Rightarrow> nat \<Rightarrow> number" where
  "normalizedDistance_of clampedDistance d =
     js_add (js_mul (js_sub clampedDistance (Num 1.0)) (scalingFactor d)) (Num 1.0)"

text \<open>The same two lines with the arithmetic of doubles.\<close>

definition scalingFactor_double :: "nat \<Rightarrow> number" where
  "scalingFactor_double d =
     (if d \<le> 3 then double_mul (double_sqrt (Num (real d))) (Num 1.5)
      else double_sqrt (Num (real d)))"

definition normalizedDistance_double :: "number \<Rightarrow> nat \<Rightarrow> number" where
  "normalizedDistance_double clampedDistance d =
     double_add (double_mul (double_sub clampedDistance (Num 1.0)) (scalingFactor_double d))
       (Num 1.0)"

section \<open>The vector sampler\<close>

text \<open>
  \<^verbatim>\<open>Math.random()\<close> is the only input of the sampler. It is modelled as a tape of
  draws that the code consumes from the front; a function that needs a draw from an
  exhausted tape has no result (\<open>None\<close>). The redraw loops of \<^verbatim>\<open>normalRandom\<close>
  \<^verbatim>\<open>
  let u = 0, v = 0;
  while (u === 0) u = Math.random();
  while (v === 0) v = Math.random();
  return Math.sqrt(-2.0 * Math.log(u)) * Math.cos(2.0 * Math.PI * v);
  \<close>
  therefore end on every tape: with the first nonzero draw, or with \<open>None\<close> when the
  tape holds zeros only. The sampler is written with the exact operations, the
  logarithm and the cosine included.
\<close>

type_synonym tape = "real list"

fun drawNonZero :: "tape \<Rightarrow> (real \<times> tape) option" where
  "drawNonZero [] = None"
| "drawNonZero (r # rs) = (if r = 0 then drawNonZero rs else Some (r, rs))"

definition boxMuller :: "real \<Rightarrow> real \<Rightarrow> number" where
  "boxMuller u v =
     js_mul (js_sqrt (js_mul (Num (- 2.0)) (js_log (Num u))))
            (js_cos (js_mul (js_mul (Num 2.0) (Num pi)) (Num v)))"

definition normalRandom :: "tape \<Rightarrow> (number \<times> tape) option" where
  "normalRandom t =
     (case drawNonZero t of
        None \<Rightarrow> None
      | Some (u, t1) \<Rightarrow>
          (case drawNonZero t1 of
             None \<Rightarrow> None
           | Some (v, t2) \<Rightarrow> Some (boxMuller u v, t2)))"

text \<open>
  \<^verbatim>\<open>generateRandomUnitVector\<close>: the first loop fills the vector and accumulates the
  sum of squares, the second divides every coordinate by the magnitude. There is no
  test of the magnitude between the two.
  \<^verbatim>\<open>
  for (let i = 0; i < dimension; i++) {
    const val = normalRandom();
    vector.push(val);
    sumSquared += val * val;
  }
  const magnitude = Math.sqrt(sumSquared);
  for (let i = 0; i < dimension; i++) {
    vector[i] /= magnitude;
  }
  \<close>
\<close>

function fillVector ::
  "nat \<Rightarrow> nat \<Rightarrow> number list \<Rightarrow> number \<Rightarrow> tape \<Rightarrow> (number list \<times> number \<times> tape) option"
where
  "fillVector i dimension vector sumSquared t =
     (if i < dimension then
        (case normalRandom t of
           None \<Rightarrow> None
         | Some (val, t') \<Rightarrow>
             fillVector (Suc i) dimension (vector @ [val]) (js_add sumSquared (js_mul val val)) t')
      else Some (vector, sumSquared, t))"
  by pat_completeness auto
termination
  by (relation "measure (\<lambda>(i, dimension, vector, sumSquared, t). dimension - i)") auto

declare fillVector.simps [simp del]

text \<open>
  Reading \<^verbatim>\<open>xs[i]\<close> past the end of an array gives \<^verbatim>\<open>undefined\<close>, which every
  arithmetic operator turns into \<open>NaN\<close>.
\<close>

definition js_index :: "number list \<Rightarrow> nat \<Rightarrow> number" where
  "js_index xs i = (if i < length xs then xs ! i else NaN)"

text \<open>
  The second loop writes indices below \<^verbatim>\<open>dimension\<close> only, and the first loop has
  pushed exactly that many coordinates, so the write is a list update inside the
  list.
\<close>

function divideVector :: "nat \<Rightarrow> nat \<Rightarrow> number \<Rightarrow> number list \<Rightarrow> number list" where
  "divideVector i dimension magnitude vector =
     (if i < dimension then
        divideVector (Suc i) dimension magnitude (vector[i := js_div (js_index vector i) magnitude])
      else vector)"
  by pat_completeness auto
termination
  by (relation "measure (\<lambda>(i, dimension, magnitude, vector). dimension - i)") auto

declare divideVector.simps [simp del]

definition generateRandomUnitVector :: "nat \<Rightarrow> tape \<Rightarrow> (number list \<times> tape) option" where
  "generateRandomUnitVector dimension t =
     (case fillVector 0 dimension [] (Num 0) t of
        None \<Rightarrow> None
      | Some (vector, sumSquared, t') \<Rightarrow>
          Some (divideVector 0 dimension (js_sqrt sumSquared) vector, t'))"

section \<open>The distance computer\<close>

text \<open>
  \<^verbatim>\<open>
  const calculateCosineDistance = (vec1, vec2) => {
    let dotProduct = 0;
    for (let i = 0; i < vec1.length; i++) {
      dotProduct += vec1[i] * vec2[i];
    }
    return 1.0 - dotProduct;
  };
  \<close>
  The loop runs over the indices of \<^verbatim>\<open>vec1\<close>; the lengths are not compared and the
  result is not clamped.
\<close>

function dotProductLoop :: "nat \<Rightarrow> number list \<Rightarrow> number list \<Rightarrow> number \<Rightarrow> number" where
  "dotProductLoop i vec1 vec2 dotProduct =
     (if i < length vec1 then
        dotProductLoop (Suc i) vec1 vec2
          (js_add dotProduct (js_mul (js_index vec1 i) (js_index vec2 i)))
      else dotProduct)"
  by pat_completeness auto
termination
  by (relation "measure (\<lambda>(i, vec1, vec2, dotProduct). length vec1 - i)") auto

declare dotProductLoop.simps [simp del]

definition calculateCosineDistance :: "number list \<Rightarrow> number list \<Rightarrow> number" where
  "calculateCosineDistance vec1 vec2 = js_sub (Num 1.0) (dotProductLoop 0 vec1 vec2 (Num 0))"

text \<open>
  The same function with the arithmetic of doubles: every product and every partial
  sum is rounded, and a product or a sum that overflows is an infinity.
\<close>

function dotProductLoop_double ::
  "nat \<Rightarrow> number list \<Rightarrow> number list \<Rightarrow> number \<Rightarrow> number"
where
  "dotProductLoop_double i vec1 vec2 dotProduct =
     (if i < length vec1 then
        dotProductLoop_double (Suc i) vec1 vec2
          (double_add dotProduct (double_mul (js_index vec1 i) (js_index vec2 i)))
      else dotProduct)"
  by pat_completeness auto
termination
  by (relation "measure (\<lambda>(i, vec1, vec2, dotProduct). length vec1 - i)") auto

declare dotProductLoop_double.simps [simp del]

definition calculateCosineDistance_double :: "number list \<Rightarrow> number list \<Rightarrow> number" where
  "calculateCosineDistance_double vec1 vec2 =
     double_sub (Num 1.0) (dotProductLoop_double 0 vec1 vec2 (Num 0))"

section \<open>The sampling loop of one dimension\<close>

record sample =
  originalDistance :: number
  normalizedDistance :: number

text \<open>
  The variables the sampling loop updates (\<^verbatim>\<open>samples\<close>, \<^verbatim>\<open>sumDistances\<close>,
  \<^verbatim>\<open>sumSquaredDistances\<close>), together with the rest of the tape of random draws.
\<close>

record loop_state =
  samples :: "sample list"
  sumDistances :: number
  sumSquaredDistances :: number
  random_tape :: tape

text \<open>
  The body of the inner loop (lines 96 to 118): two vectors, their distance, the
  clamp, the normalization, the stored sample and the two running sums.
  \<^verbatim>\<open>
  samples.push({ originalDistance: clampedDistance, normalizedDistance });
  sumDistances += clampedDistance;
  sumSquaredDistances += clampedDistance * clampedDistance;
  \<close>
\<close>

definition sampleBody :: "nat \<Rightarrow> loop_state \<Rightarrow> loop_state option" where
  "sampleBody d st =
     (case generateRandomUnitVector d (random_tape st) of
        None \<Rightarrow> None
      | Some (vector1, t1) \<Rightarrow>
          (case generateRandomUnitVector d t1 of
             None \<Rightarrow> None
           | Some (vector2, t2) \<Rightarrow>
               (let originalDistance = calculateCosineDistance vector1 vector2;
                    clampedDistance = clampDistance originalDistance;
                    normalizedDistance = normalizedDistance_of clampedDistance d
                in Some \<lparr>samples = samples st @
                            [\<lparr>originalDistance = clampedDistance,
                              normalizedDistance = normalizedDistance\<rparr>],
                         sumDistances = js_add (sumDistances st) clampedDistance,
                         sumSquaredDistances =
                           js_add (sumSquaredDistances st) (js_mul clampedDistance clampedDistance),
                         random_tape = t2\<rparr>)))"

text \<open>
  Lines 101 to 115 of the body for two given vectors, with the arithmetic of doubles:
  the distance, the clamp (\<^verbatim>\<open>Math.min\<close> and \<^verbatim>\<open>Math.max\<close> do not round), the
  normalization and the sample that is stored.
\<close>

definition storedSample :: "nat \<Rightarrow> number list \<Rightarrow> number list \<Rightarrow> sample" where
  "storedSample d vector1 vector2 =
     (let originalDistance = calculateCosineDistance_double vector1 vector2;
          clampedDistance = clampDistance originalDistance;
          normalizedDistance = normalizedDistance_double clampedDistance d
      in \<lparr>originalDistance = clampedDistance, normalizedDistance = normalizedDistance\<rparr>)"

text \<open>
  \<^verbatim>\<open>
  const batchSize = 100;
  const batches = Math.ceil(sampleSize / batchSize);
  for (let batch = 0; batch < batches; batch++) {
    const currentBatchSize = Math.min(batchSize, sampleSize - batch * batchSize);
    for (let i = 0; i < currentBatchSize; i++) { ... }
    if (batch % 10 === 0) { await new Promise(resolve => setTimeout(resolve, 0)); }
  }
  \<close>
  The \<^verbatim>\<open>await\<close> hands control to the host and changes no variable of the loop, so
  it has no counterpart in the model.
\<close>

definition batchSize :: int where
  "batchSize = 100"

definition batches_of :: "int \<Rightarrow> int" where
  "batches_of sampleSize = \<lceil>real_of_int sampleSize / real_of_int batchSize\<rceil>"

function innerLoop :: "nat \<Rightarrow> int \<Rightarrow> int \<Rightarrow> loop_state \<Rightarrow> loop_state option" where
  "innerLoop d i currentBatchSize st =
     (if i < currentBatchSize then
        (case sampleBody d st of
           None \<Rightarrow> None
         | Some st' \<Rightarrow> innerLoop d (i + 1) currentBatchSize st')
      else Some st)"
  by pat_completeness auto
termination
  by (relation "measure (\<lambda>(d, i, currentBatchSize, st). nat (currentBatchSize - i))") auto

declare innerLoop.simps [simp del]

function batchLoop :: "nat \<Rightarrow> int \<Rightarrow> int \<Rightarrow> int \<Rightarrow> loop_state \<Rightarrow> loop_state option" where
  "batchLoop d sampleSize batch batches st =
     (if batch < batches then
        (let currentBatchSize = min batchSize (sampleSize - batch * batchSize)
         in case innerLoop d 0 currentBatchSize st of
              None \<Rightarrow> None
            | Some st' \<Rightarrow> batchLoop d sampleSize (batch + 1) batches st')
      else Some st)"
  by pat_completeness auto
termination
  by (relation "measure (\<lambda>(d, sampleSize, batch, batches, st). nat (batches - batch))") auto

declare batchLoop.simps [simp del]

definition initial_state :: "tape \<Rightarrow> loop_state" where
  "initial_state t =
     \<lparr>samples = [], sumDistances = Num 0, sumSquaredDistances = Num 0, random_tape = t\<rparr>"

definition generateSamples :: "nat \<Rightarrow> int \<Rightarrow> tape \<Rightarrow> loop_state option" where
  "generateSamples d sampleSize t =
     batchLoop d sampleSize 0 (batches_of sampleSize) (initial_state t)"

text \<open>
  The two statements that update the running sums, as a function of the pair of sums
  and the clamped distance, and the sums after a list of clamped distances. Lemma
  \<open>unbatchedLoop_from_initial\<close> below shows that the sums of the loop state are the
  running sums of the stored original distances.
\<close>

definition updateSums :: "number \<times> number \<Rightarrow> number \<Rightarrow> number \<times> number" where
  "updateSums acc clampedDistance =
     (js_add (fst acc) clampedDistance, js_add (snd acc) (js_mul clampedDistance clampedDistance))"

definition runningSums :: "number list \<Rightarrow> number \<times> number" where
  "runningSums vals = foldl updateSums (Num 0, Num 0) vals"

section \<open>The statistics of one dimension\<close>

record dimension_statistics =
  dimension :: nat
  originalMean :: number
  originalStd :: number
  normalizedMean :: number
  normalizedStd :: number
  theoreticalStd :: number
  ratio :: number

text \<open>
  Lines 127 to 152. The statistics of the original distances come from the two
  running sums; those of the normalized distances from two passes over the stored
  samples. \<^verbatim>\<open>Math.pow(y, 2)\<close> is the product of \<^verbatim>\<open>y\<close> with itself.
  \<^verbatim>\<open>
  const originalMean = sumDistances / sampleSize;
  const variance = (sumSquaredDistances / sampleSize) - (originalMean * originalMean);
  const originalStd = Math.sqrt(variance);
  const theoreticalStd = 1.0 / Math.sqrt(dim);
  const normalizedValues = samples.map(s => s.normalizedDistance);
  const normalizedSum = normalizedValues.reduce((sum, val) => sum + val, 0);
  const normalizedMean = normalizedSum / normalizedValues.length;
  const normalizedSumSquared = normalizedValues.reduce((sum, val) => {
    return sum + Math.pow(val - normalizedMean, 2);
  }, 0);
  const normalizedStd = Math.sqrt(normalizedSumSquared / normalizedValues.length);
  \<close>
\<close>

definition js_pow2 :: "number \<Rightarrow> number" where
  "js_pow2 y = js_mul y y"

definition mean_of_sum :: "number \<Rightarrow> int \<Rightarrow> number" where
  "mean_of_sum sumD sampleSize = js_div sumD (Num (real_of_int sampleSize))"

definition variance_of_sums :: "number \<Rightarrow> number \<Rightarrow> int \<Rightarrow> number" where
  "variance_of_sums sumD sumSq sampleSize =
     js_sub (js_div sumSq (Num (real_of_int sampleSize)))
            (js_mul (mean_of_sum sumD sampleSize) (mean_of_sum sumD sampleSize))"

definition normalizedMean_of :: "number list \<Rightarrow> number" where
  "normalizedMean_of normalizedValues =
     js_div (foldl (\<lambda>sum val. js_add sum val) (Num 0) normalizedValues)
            (Num (real (length normalizedValues)))"

definition normalizedStd_of :: "number list \<Rightarrow> number" where
  "normalizedStd_of normalizedValues =
     js_sqrt (js_div
       (foldl (\<lambda>sum val. js_add sum (js_pow2 (js_sub val (normalizedMean_of normalizedValues))))
              (Num 0) normalizedValues)
       (Num (real (length normalizedValues))))"

definition calculateStatistics :: "nat \<Rightarrow> int \<Rightarrow> loop_state \<Rightarrow> dimension_statistics" where
  "calculateStatistics d sampleSize st =
     (let normalizedValues = map normalizedDistance (samples st);
          std = js_sqrt (variance_of_sums (sumDistances st) (sumSquaredDistances st) sampleSize);
          theoretical = js_div (Num 1.0) (js_sqrt (Num (real d)))
      in \<lparr>dimension = d,
          originalMean = mean_of_sum (sumDistances st) sampleSize,
          originalStd = std,
          normalizedMean = normalizedMean_of normalizedValues,
          normalizedStd = normalizedStd_of normalizedValues,
          theoreticalStd = theoretical,
          ratio = js_div std theoretical\<rparr>)"

section \<open>The run over all dimensions\<close>

text \<open>
  \<^verbatim>\<open>
  const dimensions = [2, 4, 8, 16, 32, 64, 128, 256, 512, 1024, 2048];
  const getAdjustedSampleSize = (dim) => {
    if (dim <= 32) return 10000;
    if (dim <= 256) return 20000;
    return 50000;
  };
  \<close>
\<close>

definition dimensions_list :: "nat list" where
  "dimensions_list = [2, 4, 8, 16, 32, 64, 128, 256, 512, 1024, 2048]"

definition getAdjustedSampleSize :: "nat \<Rightarrow> int" where
  "getAdjustedSampleSize d = (if d \<le> 32 then 10000 else if d \<le> 256 then 20000 else 50000)"

record simulation_data =
  dimensions :: "nat list"
  statistics :: "dimension_statistics list"
  distributionSamples :: "nat \<rightharpoonup> sample list"

text \<open>
  One pass of the outer loop (lines 75 to 155) for a dimension and the sample size
  chosen for it: the samples, then the statistics. The pass has no test of the
  sample size and no statement that raises.
\<close>

definition processDimension ::
  "nat \<Rightarrow> int \<Rightarrow> tape \<Rightarrow> (dimension_statistics \<times> sample list \<times> tape) option"
where
  "processDimension d sampleSize t =
     (case generateSamples d sampleSize t of
        None \<Rightarrow> None
      | Some st \<Rightarrow> Some (calculateStatistics d sampleSize st, samples st, random_tape st))"

text \<open>
  The outer loop over the dimensions that are left (\<^verbatim>\<open>for (const dim of dimensions)\<close>),
  and the whole of \<^verbatim>\<open>generateSyntheticData\<close>: it takes no argument, and both the list
  of dimensions and the sample size of each dimension are fixed in its body.
\<close>

fun dimensionLoop ::
  "nat list \<Rightarrow> dimension_statistics list \<Rightarrow> (nat \<rightharpoonup> sample list) \<Rightarrow> tape
   \<Rightarrow> (dimension_statistics list \<times> (nat \<rightharpoonup> sample list)) option"
where
  "dimensionLoop [] stats distSamples t = Some (stats, distSamples)"
| "dimensionLoop (d # ds) stats distSamples t =
     (case processDimension d (getAdjustedSampleSize d) t of
        None \<Rightarrow> None
      | Some (stat, smpls, t') \<Rightarrow>
          dimensionLoop ds (stats @ [stat]) (distSamples(d \<mapsto> smpls)) t')"

definition generateSyntheticData :: "tape \<Rightarrow> simulation_data option" where
  "generateSyntheticData t =
     (case dimensionLoop dimensions_list [] Map.empty t of
        None \<Rightarrow> None
      | Some (stats, distSamples) \<Rightarrow>
          Some \<lparr>dimensions = dimensions_list, statistics = stats,
                distributionSamples = distSamples\<rparr>)"

section \<open>The histogram builder\<close>

text \<open>
  \<^verbatim>\<open>generateHistogramData\<close> (lines 179 to 213) for one dimension, with the arithmetic
  of doubles. The code fixes the domain and the number of bins (\<open>[0, 2]\<close> or \<open>[-2, 4]\<close>,
  40 bins); the counting and the density are written here for any domain and bin
  count, and \<open>histogramForDimension\<close> is the code's instance.
  \<^verbatim>\<open>
  const binSize = (max - min) / binCount;
  const bins = Array(binCount).fill(0);
  values.forEach(val => {
    const binIndex = Math.floor((val - min) / binSize);
    if (binIndex >= 0 && binIndex < binCount) {
      bins[binIndex]++;
    }
  });
  histograms[dim] = bins.map((count, i) => ({
    x: min + (i + 0.5) * binSize,
    count: count / samples.length / binSize
  }));
  \<close>
\<close>

record histogram_bin =
  bin_x :: number
  bin_count :: number

definition binSize_of :: "real \<Rightarrow> real \<Rightarrow> nat \<Rightarrow> number" where
  "binSize_of minv maxv binCount =
     double_div (double_sub (Num maxv) (Num minv)) (Num (real binCount))"

definition binIndex_of :: "real \<Rightarrow> number \<Rightarrow> number \<Rightarrow> number" where
  "binIndex_of minv binSize val = js_floor (double_div (double_sub val (Num minv)) binSize)"

text \<open>
  A bin index that passes the test is a whole number from 0 to \<open>binCount - 1\<close>, so
  the increment stays inside the array; a value whose index fails the test changes
  no bin: it is not moved into the first or the last bin.
\<close>

definition countValue :: "real \<Rightarrow> number \<Rightarrow> nat \<Rightarrow> nat list \<Rightarrow> number \<Rightarrow> nat list" where
  "countValue minv binSize binCount bins val =
     (let binIndex = binIndex_of minv binSize val
      in if js_ge binIndex (Num 0) \<and> js_lt binIndex (Num (real binCount)) then
           (case binIndex of
              Num k \<Rightarrow> bins[nat \<lfloor>k\<rfloor> := bins ! nat \<lfloor>k\<rfloor> + 1]
            | _ \<Rightarrow> bins)
         else bins)"

definition countValues :: "real \<Rightarrow> number \<Rightarrow> nat \<Rightarrow> number list \<Rightarrow> nat list" where
  "countValues minv binSize binCount vals =
     foldl (countValue minv binSize binCount) (replicate binCount 0) vals"

definition densityBin :: "real \<Rightarrow> number \<Rightarrow> nat \<Rightarrow> nat list \<Rightarrow> nat \<Rightarrow> histogram_bin" where
  "densityBin minv binSize sampleCount bins i =
     \<lparr>bin_x = double_add (Num minv) (double_mul (double_add (Num (real i)) (Num 0.5)) binSize),
      bin_count =
        double_div (double_div (Num (real (bins ! i))) (Num (real sampleCount))) binSize\<rparr>"

definition histogramOf :: "number list \<Rightarrow> real \<Rightarrow> real \<Rightarrow> nat \<Rightarrow> histogram_bin list" where
  "histogramOf vals minv maxv binCount =
     (let binSize = binSize_of minv maxv binCount;
          bins = countValues minv binSize binCount vals
      in map (densityBin minv binSize (length vals) bins) [0..<length bins])"

definition histogramForDimension :: "sample list \<Rightarrow> bool \<Rightarrow> histogram_bin list" where
  "histogramForDimension smpls normalized =
     (let vals = map (\<lambda>s. if normalized then normalizedDistance s else originalDistance s) smpls;
          minv = (if normalized then - 2 else 0);
          maxv = (if normalized then 4 else 2);
          binCount = 40
      in histogramOf vals minv maxv binCount)"

text \<open>
  The whole function: no data gives the empty object, and a selected dimension with
  no stored samples makes \<^verbatim>\<open>samples.map\<close> raise a \<^verbatim>\<open>TypeError\<close>.
\<close>

datatype js_error = TypeError

fun histogramLoop ::
  "(nat \<rightharpoonup> sample list) \<Rightarrow> bool \<Rightarrow> nat list \<Rightarrow> (nat \<rightharpoonup> histogram_bin list)
   \<Rightarrow> js_error + (nat \<rightharpoonup> histogram_bin list)"
where
  "histogramLoop distSamples normalized [] histograms = Inr histograms"
| "histogramLoop distSamples normalized (d # ds) histograms =
     (case distSamples d of
        None \<Rightarrow> Inl TypeError
      | Some smpls \<Rightarrow>
          histogramLoop distSamples normalized ds
            (histograms(d \<mapsto> histogramForDimension smpls normalized)))"

definition generateHistogramData ::
  "simulation_data option \<Rightarrow> nat list \<Rightarrow> bool \<Rightarrow> js_error + (nat \<rightharpoonup> histogram_bin list)"
where
  "generateHistogramData dat selectedDimensions normalized =
     (case dat of
        None \<Rightarrow> Inr Map.empty
      | Some dt \<Rightarrow> histogramLoop (distributionSamples dt) normalized selectedDimensions Map.empty)"

section \<open>Reference definitions from the specification\<close>

text \<open>
  The online accumulator the specification describes (Welford's update of count,
  mean and sum of squared deviations), for comparison with the sums of the code.
\<close>

record welford_state =
  w_count :: nat
  w_mean :: real
  w_M2 :: real

definition welford_init :: welford_state where
  "welford_init = \<lparr>w_count = 0, w_mean = 0, w_M2 = 0\<rparr>"

definition welford_update :: "welford_state \<Rightarrow> real \<Rightarrow> welford_state" where
  "welford_update w v =
     (let n = w_count w + 1;
          delta = v - w_mean w;
          mean' = w_mean w + delta / real n
      in \<lparr>w_count = n, w_mean = mean', w_M2 = w_M2 w + delta * (v - mean')\<rparr>)"

definition welford_of :: "real list \<Rightarrow> welford_state" where
  "welford_of vs = foldl welford_update welford_init vs"

definition welford_std :: "welford_state \<Rightarrow> real" where
  "welford_std w = sqrt (w_M2 w / real (w_count w))"

text \<open>The single loop over all \<open>n\<close> draws, without batches.\<close>

fun unbatchedLoop :: "nat \<Rightarrow> nat \<Rightarrow> loop_state \<Rightarrow> loop_state option" where
  "unbatchedLoop d 0 st = Some st"
| "unbatchedLoop d (Suc n) st =
     (case sampleBody d st of None \<Rightarrow> None | Some st' \<Rightarrow> unbatchedLoop d n st')"

text \<open>
  The quantity of the specification's density property: the sum over the bins of
  density times bin width, taken without rounding over the densities and the bin
  width that the code has computed.
\<close>

definition histogramArea :: "histogram_bin list \<Rightarrow> number \<Rightarrow> number" where
  "histogramArea hist binSize =
     foldl (\<lambda>acc b. js_add acc (js_mul (bin_count b) binSize)) (Num 0) hist"

section \<open>An example run\<close>

text \<open>
  Eight draws that make a run of two samples in dimension 1. The draws \<open>1/2, 1/8\<close>
  give the unit vector \<open>[1]\<close> (the cosine of \<open>pi/4\<close> is positive) and the draws
  \<open>1/2, 1/2\<close> give \<open>[-1]\<close> (the cosine of \<open>pi\<close> is \<open>-1\<close>), so the first sample has the
  distance 2 and the second the distance 0. The state after the first sample and the
  state after the second follow.
\<close>

definition example_tape :: tape where
  "example_tape = [1 / 2, 1 / 8, 1 / 2, 1 / 2, 1 / 2, 1 / 2, 1 / 2, 1 / 2]"

definition first_example_state :: loop_state where
  "first_example_state =
     \<lparr>samples = [\<lparr>originalDistance = Num 2, normalizedDistance = Num (5 / 2)\<rparr>],
      sumDistances = Num 2, sumSquaredDistances = Num 4,
      random_tape = [1 / 2, 1 / 2, 1 / 2, 1 / 2]\<rparr>"

definition example_state :: loop_state where
  "example_state =
     \<lparr>samples = [\<lparr>originalDistance = Num 2, normalizedDistance = Num (5 / 2)\<rparr>,
                 \<lparr>originalDistance = Num 0, normalizedDistance = Num (- (1 / 2))\<rparr>],
      sumDistances = Num 2, sumSquaredDistances = Num 4, random_tape = []\<rparr>"

section \<open>Arithmetic of numbers\<close>

lemma js_add_NaN_right [simp]: "js_add a NaN = NaN"
  by (cases a) simp_all

lemma js_mul_NaN_right [simp]: "js_mul a NaN = NaN"
  by (cases a) simp_all

lemma js_sub_Num [simp]: "js_sub (Num a) (Num b) = Num (a - b)"
  by (simp add: js_sub_def)

lemma clampDistance_Num: "clampDistance (Num v) = Num (max 0 (min 2 v))"
  by (simp add: clampDistance_def js_min_def js_max_def)

lemma clampDistance_range:
  "clampDistance v = NaN \<or> (\<exists>r. clampDistance v = Num r \<and> 0 \<le> r \<and> r \<le> 2)"
  by (cases v) (simp_all add: clampDistance_def js_min_def js_max_def)

lemma scalingFactor_Num:
  "scalingFactor d = Num (sqrt (real d) * (if d \<le> 3 then 1.5 else 1.0))"
  by (simp add: scalingFactor_def)

lemma normalizedDistance_of_Num:
  "normalizedDistance_of (Num v) d =
     Num ((v - 1) * sqrt (real d) * (if d \<le> 3 then 1.5 else 1.0) + 1)"
  by (simp add: normalizedDistance_of_def scalingFactor_def)


section \<open>Rounding to doubles\<close>

text \<open>
  Facts about \<open>round_double\<close>: it is monotone and odd, it keeps the powers of two
  and the whole numbers up to \<open>2 ^ 53\<close>, it stays within half a unit in the last place of
  its argument, and on a real between \<open>2 ^ 52 * u\<close> and \<open>2 ^ 53 * u\<close>, for a power of
  two \<open>u\<close>, it is the multiple of \<open>u\<close> that \<open>round_half_even\<close> selects. The last fact
  evaluates the rounding of a given rational.
\<close>

lemma rhe_floor: "\<lfloor>y\<rfloor> \<le> round_half_even y" "round_half_even y \<le> \<lfloor>y\<rfloor> + 1"
  by (simp_all add: round_half_even_def Let_def)

lemma rhe_of_int [simp]: "round_half_even (of_int m) = m"
  by (simp add: round_half_even_def)

lemma rhe_mono: "x \<le> y \<Longrightarrow> round_half_even x \<le> round_half_even y"
proof -
  assume xy: "x \<le> y"
  then have fl: "\<lfloor>x\<rfloor> \<le> \<lfloor>y\<rfloor>" by (rule floor_mono)
  show ?thesis
  proof (cases "\<lfloor>x\<rfloor> = \<lfloor>y\<rfloor>")
    case True
    then have "x - of_int \<lfloor>x\<rfloor> \<le> y - of_int \<lfloor>y\<rfloor>" using xy by simp
    then show ?thesis using True
      by (auto simp: round_half_even_def Let_def)
  next
    case False
    then have "\<lfloor>x\<rfloor> + 1 \<le> \<lfloor>y\<rfloor>" using fl by simp
    then show ?thesis using rhe_floor(2) [of x] rhe_floor(1) [of y] by linarith
  qed
qed

lemma rhe_unique: "\<bar>y - of_int m\<bar> < 1 / 2 \<Longrightarrow> round_half_even y = m"
proof -
  assume a: "\<bar>y - of_int m\<bar> < 1 / 2"
  show ?thesis
  proof (cases "of_int m \<le> y")
    case True
    then have "\<lfloor>y\<rfloor> = m" using a by (intro floor_unique) (simp_all add: abs_less_iff)
    then show ?thesis using a True by (simp add: round_half_even_def Let_def abs_less_iff)
  next
    case False
    then have "\<lfloor>y\<rfloor> = m - 1" using a by (intro floor_unique) (simp_all add: abs_less_iff)
    then show ?thesis using a False by (simp add: round_half_even_def Let_def abs_less_iff)
  qed
qed

lemma rhe_tie: "y = of_int m + 1 / 2 \<Longrightarrow> round_half_even y = (if even m then m else m + 1)"
proof -
  assume y: "y = of_int m + 1 / 2"
  have "\<lfloor>y\<rfloor> = m" unfolding y by (intro floor_unique) simp_all
  then show ?thesis by (simp add: round_half_even_def Let_def y)
qed

lemma rhe_neg: "round_half_even (- y) = - round_half_even y"
proof (cases "y = of_int \<lfloor>y\<rfloor>")
  case True
  then obtain m where "y = of_int m" by blast
  then show ?thesis by (simp flip: of_int_minus)
next
  case False
  then have lt: "of_int \<lfloor>y\<rfloor> < y" using of_int_floor_le [of y] by linarith
  have fn: "\<lfloor>- y\<rfloor> = - \<lfloor>y\<rfloor> - 1"
    using lt by (intro floor_unique) (simp_all, linarith+)
  show ?thesis
    using lt by (auto simp: round_half_even_def Let_def fn)
qed

lemma double_ulp_pos: "0 < double_ulp x"
  by (simp add: double_ulp_def)

lemma double_exponent_minus [simp]: "double_exponent (- x) = double_exponent x"
  by (simp add: double_exponent_def)

lemma double_ulp_minus [simp]: "double_ulp (- x) = double_ulp x"
  by (simp add: double_ulp_def)

lemma round_double_minus: "round_double (- x) = - round_double x"
  by (simp add: round_double_def rhe_neg)

lemma round_double_zero [simp]: "round_double 0 = 0"
  by (simp add: round_double_def)

lemma round_double_nonneg: "0 \<le> x \<Longrightarrow> 0 \<le> round_double x"
proof -
  assume "0 \<le> x"
  then have "0 \<le> x / double_ulp x" using double_ulp_pos [of x] by simp
  then have "round_half_even 0 \<le> round_half_even (x / double_ulp x)" by (rule rhe_mono)
  then have "0 \<le> round_half_even (x / double_ulp x)" using rhe_of_int [of 0] by simp
  then show ?thesis using double_ulp_pos [of x] by (simp add: round_double_def)
qed

lemma double_exponent_mono:
  assumes "0 < x" "x \<le> y"
  shows "double_exponent x \<le> double_exponent y"
proof -
  have "log 2 x \<le> log 2 y" using assms by simp
  then have "\<lfloor>log 2 x\<rfloor> \<le> \<lfloor>log 2 y\<rfloor>" by (rule floor_mono)
  then show ?thesis using assms by (simp add: double_exponent_def)
qed

lemma below_next_binade:
  assumes "0 < x"
  shows "x < 2 powr (of_int (double_exponent x) + 1)"
proof -
  have "log 2 x < of_int \<lfloor>log 2 x\<rfloor> + 1" by linarith
  also have "\<dots> \<le> of_int (double_exponent x) + 1"
    using assms by (simp add: double_exponent_def)
  finally have "log 2 x < of_int (double_exponent x) + 1" .
  then show ?thesis using log_less_iff [of 2 x] assms by simp
qed

lemma above_binade:
  assumes "0 < x" "- 1022 < double_exponent x"
  shows "2 powr of_int (double_exponent x) \<le> x"
proof -
  have e: "double_exponent x = \<lfloor>log 2 x\<rfloor>"
    using assms by (simp add: double_exponent_def max_def split: if_splits)
  have "of_int \<lfloor>log 2 x\<rfloor> \<le> log 2 x" by simp
  then have "2 powr of_int \<lfloor>log 2 x\<rfloor> \<le> x"
    using le_log_iff [of 2 x "of_int \<lfloor>log 2 x\<rfloor>"] assms(1) by simp
  then show ?thesis by (simp only: e)
qed

lemma powr_split: "(2::real) powr (r + 1) = 2 ^ 53 * 2 powr (r - 52)"
proof -
  have eq: "r + 1 = 53 + (r - 52)" by simp
  have "(2::real) powr (r + 1) = 2 powr (53 + (r - 52))" by (subst eq) (rule refl)
  also have "\<dots> = 2 powr 53 * 2 powr (r - 52)" by (simp only: powr_add)
  finally show ?thesis by simp
qed

lemma powr_split0: "(2::real) powr r = 2 ^ 52 * 2 powr (r - 52)"
proof -
  have eq: "r = 52 + (r - 52)" by simp
  have "(2::real) powr r = 2 powr (52 + (r - 52))" by (subst eq) (rule refl)
  also have "\<dots> = 2 powr 52 * 2 powr (r - 52)" by (simp only: powr_add)
  finally show ?thesis by simp
qed

lemma round_double_upper:
  assumes "0 < x"
  shows "round_double x \<le> 2 powr (of_int (double_exponent x) + 1)"
proof -
  let ?u = "double_ulp x"
  have u: "0 < ?u" by (rule double_ulp_pos)
  have top: "2 powr (of_int (double_exponent x) + 1) = 2 ^ 53 * ?u"
    unfolding double_ulp_def by (rule powr_split)
  have "x < 2 ^ 53 * ?u"
    using below_next_binade [OF assms] by (simp only: top)
  then have "x / ?u \<le> of_int (2 ^ 53)" using u by (simp add: pos_divide_le_eq)
  then have "round_half_even (x / ?u) \<le> round_half_even (of_int (2 ^ 53))" by (rule rhe_mono)
  then have "round_half_even (x / ?u) \<le> 2 ^ 53" by (simp only: rhe_of_int)
  then have "real_of_int (round_half_even (x / ?u)) \<le> of_int (2 ^ 53)"
    by (simp only: of_int_le_iff)
  then have "real_of_int (round_half_even (x / ?u)) * ?u \<le> of_int (2 ^ 53) * ?u"
    using u by (simp only: mult_le_cancel_right_pos)
  then have "round_double x \<le> 2 ^ 53 * ?u" using assms by (simp add: round_double_def)
  then show ?thesis by (simp only: top)
qed

lemma round_double_lower:
  assumes "0 < x" "- 1022 < double_exponent x"
  shows "2 powr of_int (double_exponent x) \<le> round_double x"
proof -
  let ?u = "double_ulp x"
  have u: "0 < ?u" by (rule double_ulp_pos)
  have bot: "2 powr of_int (double_exponent x) = 2 ^ 52 * ?u"
    unfolding double_ulp_def by (rule powr_split0)
  have "2 ^ 52 * ?u \<le> x"
    using above_binade [OF assms] by (simp only: bot)
  then have "of_int (2 ^ 52) \<le> x / ?u" using u by (simp add: pos_le_divide_eq)
  then have "round_half_even (of_int (2 ^ 52)) \<le> round_half_even (x / ?u)" by (rule rhe_mono)
  then have "2 ^ 52 \<le> round_half_even (x / ?u)" by (simp only: rhe_of_int)
  then have "of_int (2 ^ 52) \<le> real_of_int (round_half_even (x / ?u))"
    by (simp only: of_int_le_iff)
  then have "of_int (2 ^ 52) * ?u \<le> real_of_int (round_half_even (x / ?u)) * ?u"
    using u by (simp only: mult_le_cancel_right_pos)
  then have "2 ^ 52 * ?u \<le> round_double x" using assms by (simp add: round_double_def)
  then show ?thesis by (simp only: bot)
qed

lemma round_double_mono_pos:
  assumes "0 < x" "x \<le> y"
  shows "round_double x \<le> round_double y"
proof (cases "double_exponent x = double_exponent y")
  case True
  then have u: "double_ulp x = double_ulp y" by (simp add: double_ulp_def)
  have "x / double_ulp y \<le> y / double_ulp y"
    using assms(2) double_ulp_pos [of y] by (simp add: divide_right_mono)
  then have "round_half_even (x / double_ulp y) \<le> round_half_even (y / double_ulp y)"
    by (rule rhe_mono)
  then have "real_of_int (round_half_even (x / double_ulp y)) * double_ulp y
      \<le> real_of_int (round_half_even (y / double_ulp y)) * double_ulp y"
    using double_ulp_pos [of y] by (simp only: mult_le_cancel_right_pos of_int_le_iff)
  then show ?thesis using assms by (simp add: round_double_def u)
next
  case False
  have y: "0 < y" using assms by simp
  have "double_exponent x \<le> double_exponent y" using assms by (rule double_exponent_mono)
  then have lt: "double_exponent x + 1 \<le> double_exponent y" using False by simp
  have low: "- 1022 \<le> double_exponent x" by (simp add: double_exponent_def)
  then have "- 1022 < double_exponent y" using lt by simp
  then have "2 powr of_int (double_exponent y) \<le> round_double y"
    using y by (intro round_double_lower)
  moreover have "round_double x \<le> 2 powr (of_int (double_exponent x) + 1)"
    using assms(1) by (rule round_double_upper)
  moreover have "2 powr (of_int (double_exponent x) + 1) \<le> (2::real) powr of_int (double_exponent y)"
    using lt by simp
  ultimately show ?thesis by linarith
qed

lemma round_double_mono: "x \<le> y \<Longrightarrow> round_double x \<le> round_double y"
proof -
  assume xy: "x \<le> y"
  consider "0 < x" | "x \<le> 0" "0 \<le> y" | "y < 0" by linarith
  then show ?thesis
  proof cases
    case 1
    then show ?thesis using xy by (rule round_double_mono_pos)
  next
    case 2
    have "0 \<le> round_double y" using 2(2) by (rule round_double_nonneg)
    moreover have "0 \<le> round_double (- x)" using 2(1) by (intro round_double_nonneg) simp
    ultimately show ?thesis by (simp add: round_double_minus)
  next
    case 3
    then have "round_double (- y) \<le> round_double (- x)"
      using xy by (intro round_double_mono_pos) simp_all
    then show ?thesis by (simp add: round_double_minus)
  qed
qed

lemma double_exponent_eq:
  assumes "- 1022 \<le> e" and "2 powr of_int e \<le> \<bar>x\<bar>" and "\<bar>x\<bar> < 2 powr (of_int e + 1)"
  shows "double_exponent x = e"
proof -
  have pos: "0 < \<bar>x\<bar>"
    using assms(2) powr_gt_zero [of 2 "of_int e"] by linarith
  have "\<lfloor>log 2 \<bar>x\<bar>\<rfloor> = e"
    using floor_log_eq_powr_iff [of "\<bar>x\<bar>" 2 e] pos assms(2,3) by simp
  then show ?thesis using assms(1) by (simp add: double_exponent_def)
qed

lemma round_double_eval:
  assumes "- 1022 \<le> e" and "2 powr of_int e \<le> \<bar>x\<bar>" and "\<bar>x\<bar> < 2 powr (of_int e + 1)"
    and "u = 2 powr (of_int e - 52)"
  shows "round_double x = of_int (round_half_even (x / u)) * u"
proof -
  have "x \<noteq> 0" using assms(2) powr_gt_zero [of 2 "of_int e"] by auto
  moreover have "double_ulp x = u"
    using double_exponent_eq [OF assms(1,2,3)] assms(4) by (simp add: double_ulp_def)
  ultimately show ?thesis by (simp add: round_double_def)
qed

lemma round_double_nearest:
  assumes "- 1022 \<le> e" and "2 powr of_int e \<le> \<bar>x\<bar>" and "\<bar>x\<bar> < 2 powr (of_int e + 1)"
    and "u = 2 powr (of_int e - 52)" and "\<bar>x / u - of_int m\<bar> < 1 / 2"
  shows "round_double x = of_int m * u"
  using round_double_eval [OF assms(1,2,3,4)] rhe_unique [OF assms(5)] by simp

lemma round_double_between:
  assumes "- 1022 \<le> e" and "2 powr of_int e \<le> \<bar>x\<bar>" and "\<bar>x\<bar> < 2 powr (of_int e + 1)"
    and "u = 2 powr (of_int e - 52)"
    and "(of_int m - 1 / 2) * u < x" and "x < (of_int m + 1 / 2) * u"
  shows "round_double x = of_int m * u"
proof -
  have u: "0 < u" using assms(4) by simp
  have "of_int m - 1 / 2 < x / u" "x / u < of_int m + 1 / 2"
    using assms(5,6) u by (simp_all add: pos_less_divide_eq pos_divide_less_eq)
  then have "\<bar>x / u - of_int m\<bar> < 1 / 2" by linarith
  then show ?thesis by (rule round_double_nearest [OF assms(1,2,3,4)])
qed

lemma round_double_tie:
  assumes "- 1022 \<le> e" and "2 powr of_int e \<le> \<bar>x\<bar>" and "\<bar>x\<bar> < 2 powr (of_int e + 1)"
    and "u = 2 powr (of_int e - 52)" and "x / u = of_int m + 1 / 2"
  shows "round_double x = of_int (if even m then m else m + 1) * u"
  using round_double_eval [OF assms(1,2,3,4)] rhe_tie [OF assms(5)] by simp

lemma round_double_powr:
  assumes "- 1022 \<le> n"
  shows "round_double (2 powr of_int n) = 2 powr of_int n"
proof -
  have q: "2 powr of_int n / 2 powr (of_int n - 52) = (of_int (2 ^ 52) :: real)"
    by (simp add: powr_diff)
  have "round_double (2 powr of_int n)
          = of_int (round_half_even (2 powr of_int n / 2 powr (of_int n - 52)))
            * 2 powr (of_int n - 52)"
    using assms by (intro round_double_eval [of n]) simp_all
  also have "\<dots> = of_int (2 ^ 52) * 2 powr (of_int n - 52)"
    by (simp only: q rhe_of_int)
  also have "\<dots> = 2 powr of_int n"
    using powr_split0 [of "of_int n"] by simp
  finally show ?thesis .
qed

lemma round_double_power: "k \<le> 1023 \<Longrightarrow> round_double (2 ^ k) = 2 ^ k"
  using round_double_powr [of "int k"] by (simp add: powr_realpow)

lemma round_double_one [simp]: "round_double 1 = 1"
  using round_double_power [of 0] by simp

lemma round_double_bounded:
  assumes "\<bar>x\<bar> \<le> 2 ^ k" and "k \<le> 1023"
  shows "\<bar>round_double x\<bar> \<le> 2 ^ k"
proof -
  have "round_double x \<le> round_double (2 ^ k)"
    using assms(1) by (intro round_double_mono) simp
  moreover have "round_double (- (2 ^ k)) \<le> round_double x"
    using assms(1) by (intro round_double_mono) simp
  ultimately show ?thesis
    using round_double_power [OF assms(2)] by (simp add: round_double_minus abs_le_iff)
qed

lemma round_double_scaled:
  assumes "u = 2 powr of_int k" and "- 1074 \<le> k"
    and "2 ^ 52 * u \<le> \<bar>x\<bar>" and "\<bar>x\<bar> < 2 ^ 53 * u"
  shows "round_double x = of_int (round_half_even (x / u)) * u"
proof -
  have u: "u = 2 powr (of_int (k + 52) - 52)" using assms(1) by simp
  have e: "- 1022 \<le> k + 52" using assms(2) by simp
  have lo: "2 powr of_int (k + 52) \<le> \<bar>x\<bar>"
    using assms(3) powr_split0 [of "of_int (k + 52)"] u by simp
  have hi: "\<bar>x\<bar> < 2 powr (of_int (k + 52) + 1)"
    using assms(4) powr_split [of "of_int (k + 52)"] u by simp
  show ?thesis
    by (rule round_double_eval [OF e lo hi u])
qed

lemma round_double_at_neg:
  assumes "n \<le> 1074" and "2 ^ 52 / 2 ^ n \<le> \<bar>x\<bar>" and "\<bar>x\<bar> < 2 ^ 53 / 2 ^ n"
  shows "round_double x = of_int (round_half_even (x * 2 ^ n)) / 2 ^ n"
proof -
  have u: "1 / 2 ^ n = (2::real) powr of_int (- int n)"
    by (simp add: powr_minus_divide powr_realpow)
  show ?thesis
    using round_double_scaled [OF u, of x] assms by simp
qed

lemma round_double_at_pos:
  assumes "2 ^ 52 * 2 ^ n \<le> \<bar>x\<bar>" and "\<bar>x\<bar> < 2 ^ 53 * 2 ^ n"
  shows "round_double x = of_int (round_half_even (x / 2 ^ n)) * 2 ^ n"
proof -
  have u: "2 ^ n = (2::real) powr of_int (int n)"
    by (simp add: powr_realpow)
  show ?thesis
    using round_double_scaled [OF u, of x] assms by simp
qed

lemma rhe_between: "of_int m - 1 / 2 < y \<Longrightarrow> y < of_int m + 1 / 2 \<Longrightarrow> round_half_even y = m"
  by (rule rhe_unique) linarith

lemma rhe_error: "\<bar>of_int (round_half_even y) - y\<bar> \<le> 1 / 2"
proof -
  have "of_int \<lfloor>y\<rfloor> \<le> y" "y < of_int \<lfloor>y\<rfloor> + 1" by linarith+
  then show ?thesis
    by (auto simp: round_half_even_def Let_def)
qed

lemma round_double_error: "\<bar>round_double x - x\<bar> \<le> double_ulp x / 2"
proof (cases "x = 0")
  case True
  then show ?thesis using double_ulp_pos [of 0] by (simp add: round_double_def)
next
  case False
  let ?u = "double_ulp x"
  have u: "0 < ?u" by (rule double_ulp_pos)
  have "round_double x - x = (of_int (round_half_even (x / ?u)) - x / ?u) * ?u"
    using False u by (simp add: round_double_def algebra_simps)
  then have "\<bar>round_double x - x\<bar> = \<bar>of_int (round_half_even (x / ?u)) - x / ?u\<bar> * ?u"
    using u by (simp add: abs_mult)
  also have "\<dots> \<le> 1 / 2 * ?u"
    using u rhe_error [of "x / ?u"] by (intro mult_right_mono) simp_all
  finally show ?thesis by simp
qed

lemma round_double_relative:
  assumes "2 powr (- 1021) \<le> \<bar>x\<bar>"
  shows "\<bar>round_double x - x\<bar> \<le> \<bar>x\<bar> / 2 ^ 53"
proof -
  have pos: "0 < \<bar>x\<bar>" using assms powr_gt_zero [of 2 "- 1021"] by linarith
  have "- 1021 \<le> log 2 \<bar>x\<bar>"
    using assms pos by (simp add: le_log_iff)
  then have "- 1021 \<le> \<lfloor>log 2 \<bar>x\<bar>\<rfloor>" by (simp add: le_floor_iff)
  then have e: "- 1022 < double_exponent \<bar>x\<bar>"
    by (simp add: double_exponent_def)
  have ex: "double_exponent \<bar>x\<bar> = double_exponent x"
    by (simp add: double_exponent_def)
  have "2 powr of_int (double_exponent x) \<le> \<bar>x\<bar>"
    using above_binade [OF pos e] by (simp only: ex)
  moreover have "double_ulp x / 2 = 2 powr of_int (double_exponent x) / 2 ^ 53"
    unfolding double_ulp_def by (simp add: powr_split0 [of "of_int (double_exponent x)"])
  ultimately have "double_ulp x / 2 \<le> \<bar>x\<bar> / 2 ^ 53"
    by (simp add: divide_right_mono)
  then show ?thesis using round_double_error [of x] by linarith
qed

lemma round_double_absolute:
  assumes "\<bar>x\<bar> \<le> y" and "2 powr (- 1022) \<le> y"
  shows "\<bar>round_double x - x\<bar> \<le> y / 2 ^ 53"
proof (cases "x = 0")
  case True
  have "0 < y" using assms(2) powr_gt_zero [of 2 "- 1022"] by linarith
  then show ?thesis using True by (simp add: round_double_def)
next
  case False
  have ypos: "0 < y" using assms(2) powr_gt_zero [of 2 "- 1022"] by linarith
  have "log 2 \<bar>x\<bar> \<le> log 2 y" using False assms(1) by simp
  then have "of_int \<lfloor>log 2 \<bar>x\<bar>\<rfloor> \<le> log 2 y" by linarith
  moreover have "- 1022 \<le> log 2 y" using assms(2) ypos by (simp add: le_log_iff)
  ultimately have "of_int (double_exponent x) \<le> log 2 y"
    by (simp add: double_exponent_def max_def)
  then have "2 powr of_int (double_exponent x) \<le> y"
    using ypos by (simp add: le_log_iff)
  moreover have "double_ulp x / 2 = 2 powr of_int (double_exponent x) / 2 ^ 53"
    unfolding double_ulp_def by (simp add: powr_split0 [of "of_int (double_exponent x)"])
  ultimately have "double_ulp x / 2 \<le> y / 2 ^ 53"
    by (simp add: divide_right_mono)
  then show ?thesis using round_double_error [of x] by linarith
qed

lemma round_double_small_nat:
  assumes "n < 2 ^ 53"
  shows "round_double (real n) = real n"
proof (cases "n = 0")
  case True
  then show ?thesis by (simp add: round_double_def)
next
  case False
  then have pos: "1 \<le> real n" by simp
  have lt: "real n < 2 ^ 53"
    using assms by (metis of_nat_less_iff of_nat_numeral of_nat_power)
  define e where "e = double_exponent (real n)"
  have "0 \<le> log 2 (real n)" using pos by simp
  then have "0 \<le> \<lfloor>log 2 (real n)\<rfloor>" by simp
  then have e0: "0 \<le> e" unfolding e_def double_exponent_def by simp
  have "log 2 (real n) < 53"
    using lt pos by (simp add: log_less_iff powr_realpow)
  then have "\<lfloor>log 2 (real n)\<rfloor> < 53" by (simp add: floor_less_iff)
  then have e1: "e \<le> 52" unfolding e_def double_exponent_def by simp
  define j where "j = nat (52 - e)"
  have "of_int e - 52 = - real j" unfolding j_def using e1 by simp
  then have "double_ulp (real n) = 2 powr (- real j)"
    unfolding double_ulp_def e_def by simp
  then have u: "double_ulp (real n) = 1 / 2 ^ j"
    by (simp add: powr_minus_divide powr_realpow)
  have "real n / double_ulp (real n) = of_int (int n * 2 ^ j)" by (simp add: u)
  then have "round_half_even (real n / double_ulp (real n)) = int n * 2 ^ j"
    by (simp only: rhe_of_int)
  then show ?thesis using False by (simp add: round_double_def u)
qed

lemma round_double_of_nat:
  assumes "n \<le> 2 ^ 53"
  shows "round_double (real n) = real n"
proof (cases "n = 2 ^ 53")
  case True
  then show ?thesis using round_double_power [of 53] by simp
next
  case False
  then show ?thesis using assms by (intro round_double_small_nat) simp
qed

lemma js_round_Num:
  assumes "\<bar>x\<bar> \<le> 2 ^ k" and "k \<le> 1023"
  shows "js_round (Num x) = Num (round_double x)" and "\<bar>round_double x\<bar> \<le> 2 ^ k"
proof -
  show b: "\<bar>round_double x\<bar> \<le> 2 ^ k" using assms by (rule round_double_bounded)
  have "(2::real) ^ k < 2 ^ 1024"
    by (rule power_strict_increasing) (use assms(2) in simp_all)
  then have "\<not> 2 ^ 1024 \<le> \<bar>round_double x\<bar>" using b by linarith
  then show "js_round (Num x) = Num (round_double x)" by (simp add: js_round_def)
qed

lemma js_round_nat_bound:
  assumes "\<bar>x\<bar> \<le> real n" and "n \<le> 2 ^ 53"
  shows "js_round (Num x) = Num (round_double x)" and "\<bar>round_double x\<bar> \<le> real n"
proof -
  have up: "round_double x \<le> real n"
    using round_double_mono [of x "real n"] assms by (simp add: round_double_of_nat)
  have "round_double (- real n) \<le> round_double x"
    using assms(1) by (intro round_double_mono) simp
  then have lo: "- real n \<le> round_double x"
    using assms(2) by (simp add: round_double_minus round_double_of_nat)
  show b: "\<bar>round_double x\<bar> \<le> real n" using up lo by simp
  have "real n \<le> 2 ^ 53"
    using assms(2) by (metis of_nat_le_iff of_nat_numeral of_nat_power)
  then have "\<bar>x\<bar> \<le> 2 ^ 53" using assms(1) by simp
  then show "js_round (Num x) = Num (round_double x)"
    by (rule js_round_Num(1)) simp
qed

lemma round_double_overflow: "round_double (2 ^ 1024) = 2 ^ 1024"
  using round_double_powr [of 1024] by (simp add: powr_realpow)

lemma js_round_overflow:
  assumes "2 ^ 1024 \<le> x"
  shows "js_round (Num x) = PosInf" and "js_round (Num (- x)) = NegInf"
proof -
  have a: "2 ^ 1024 \<le> round_double x"
    using round_double_mono [OF assms] by (simp only: round_double_overflow)
  then have b: "2 ^ 1024 \<le> \<bar>round_double x\<bar>" by linarith
  have "(0::real) < 2 ^ 1024" by simp
  then have x: "0 < x" using assms by linarith
  show "js_round (Num x) = PosInf"
    unfolding js_round_def using b x by simp
  show "js_round (Num (- x)) = NegInf"
    unfolding js_round_def using b x by (simp add: round_double_minus)
qed

lemma double_add_eval:
  "round_double (a + b) = c \<Longrightarrow> \<bar>c\<bar> < 2 ^ 1024 \<Longrightarrow> double_add (Num a) (Num b) = Num c"
  by (simp add: double_add_def js_round_def)

lemma double_sub_eval:
  "round_double (a - b) = c \<Longrightarrow> \<bar>c\<bar> < 2 ^ 1024 \<Longrightarrow> double_sub (Num a) (Num b) = Num c"
  by (simp add: double_sub_def js_round_def)

lemma double_mul_eval:
  "round_double (a * b) = c \<Longrightarrow> \<bar>c\<bar> < 2 ^ 1024 \<Longrightarrow> double_mul (Num a) (Num b) = Num c"
  by (simp add: double_mul_def js_round_def)

lemma double_div_eval:
  "round_double (a / b) = c \<Longrightarrow> b \<noteq> 0 \<Longrightarrow> \<bar>c\<bar> < 2 ^ 1024
   \<Longrightarrow> double_div (Num a) (Num b) = Num c"
  by (simp add: double_div_def js_round_def)

section \<open>The normalization formula\<close>


section \<open>The normalization in doubles keeps the order and can merge distances\<close>

text \<open>
  The double nearest to the square root of 2, which lies between the two half-way
  points around it.
\<close>

lemma sqrt2_double: "round_double (sqrt 2) = 6369051672525773 / 2 ^ 52"
proof -
  have lo: "(6369051672525773 - 1 / 2) / 2 ^ 52 < sqrt 2"
    by (rule real_less_rsqrt) (simp add: power2_eq_square field_simps)
  have hi: "sqrt 2 < (6369051672525773 + 1 / 2) / 2 ^ 52"
    by (rule real_less_lsqrt) (simp_all add: power2_eq_square field_simps)
  have b1: "2 powr of_int 0 \<le> \<bar>sqrt 2\<bar>" by simp
  have b2: "\<bar>sqrt 2\<bar> < 2 powr (of_int 0 + 1)"
    using hi by simp
  have u: "1 / 2 ^ 52 = (2::real) powr (of_int 0 - 52)"
    by (simp add: powr_minus_divide)
  show ?thesis
    using round_double_between [OF _ b1 b2 u, of 6369051672525773] lo hi by simp
qed

lemma sqrt_dimension_bounds:
  assumes "1 \<le> d" and "d \<le> 2 ^ 53"
  shows "1 \<le> sqrt (real d)" and "sqrt (real d) \<le> 2 ^ 27"
proof -
  show "1 \<le> sqrt (real d)" using assms(1) by simp
  have "real d \<le> 2 ^ 53" using assms(2) by (metis of_nat_le_iff of_nat_numeral of_nat_power)
  also have "\<dots> \<le> (2 ^ 27)\<^sup>2" by simp
  finally have "real d \<le> (2 ^ 27)\<^sup>2" .
  then show "sqrt (real d) \<le> 2 ^ 27" by (intro real_le_lsqrt) simp_all
qed

lemma scalingFactor_double_bounds:
  assumes "1 \<le> d" and "d \<le> 2 ^ 53"
  shows "\<exists>s. scalingFactor_double d = Num s \<and> 1 \<le> s \<and> s \<le> 2 ^ 28"
proof -
  define r where "r = round_double (sqrt (real d))"
  have b: "1 \<le> sqrt (real d)" "sqrt (real d) \<le> 2 ^ 27"
    using sqrt_dimension_bounds [OF assms] by simp_all
  have r1: "js_round (Num (sqrt (real d))) = Num r" and r2: "\<bar>r\<bar> \<le> 2 ^ 27"
    unfolding r_def using js_round_Num [of "sqrt (real d)" 27] b by simp_all
  have r3: "1 \<le> r"
    unfolding r_def using round_double_mono [OF b(1)] by simp
  have root: "double_sqrt (Num (real d)) = Num r"
    by (simp add: double_sqrt_def r1)
  show ?thesis
  proof (cases "d \<le> 3")
    case True
    define s where "s = round_double (r * 1.5)"
    have m: "\<bar>r * 1.5\<bar> \<le> 2 ^ 28" using r2 r3 by simp
    have s1: "js_round (Num (r * 1.5)) = Num s" and s2: "\<bar>s\<bar> \<le> 2 ^ 28"
      unfolding s_def using js_round_Num [OF m] by simp_all
    have "1 \<le> r * 1.5" using r3 by simp
    then have "1 \<le> s" unfolding s_def using round_double_mono [of 1 "r * 1.5"] by simp
    then show ?thesis
      using True s1 s2 by (simp add: scalingFactor_double_def root double_mul_def)
  next
    case False
    then show ?thesis
      using r2 r3 by (simp add: scalingFactor_double_def root)
  qed
qed

lemma normalizedDistance_double_value:
  assumes "scalingFactor_double d = Num s" and "1 \<le> s" and "s \<le> 2 ^ 28"
    and "0 \<le> v" and "v \<le> 2"
  shows "normalizedDistance_double (Num v) d
           = Num (round_double (round_double (round_double (v - 1) * s) + 1))"
proof -
  define a where "a = round_double (v - 1)"
  define p where "p = round_double (a * s)"
  have a0: "\<bar>v - 1\<bar> \<le> 2 ^ 0" using assms(4,5) by simp
  have a1: "js_round (Num (v - 1)) = Num a" and a2: "\<bar>a\<bar> \<le> 1"
    unfolding a_def using js_round_Num [OF a0] by simp_all
  have "\<bar>a * s\<bar> \<le> 1 * 2 ^ 28"
    unfolding abs_mult using a2 assms(2,3) by (intro mult_mono) simp_all
  then have p0: "\<bar>a * s\<bar> \<le> 2 ^ 28" by simp
  have p1: "js_round (Num (a * s)) = Num p" and p2: "\<bar>p\<bar> \<le> 2 ^ 28"
    unfolding p_def using js_round_Num [OF p0] by simp_all
  have q0: "\<bar>p + 1\<bar> \<le> 2 ^ 29" using p2 by simp
  have q1: "js_round (Num (p + 1)) = Num (round_double (p + 1))"
    using js_round_Num [OF q0] by simp
  show ?thesis
    by (simp add: normalizedDistance_double_def double_sub_def double_mul_def double_add_def
        assms(1) a1 p1 q1) (simp add: p_def a_def)
qed

lemma normalizedDistance_double_mono:
  assumes "1 \<le> d" and "d \<le> 2 ^ 53" and "0 \<le> v" and "v \<le> w" and "w \<le> 2"
  shows "\<exists>s a b. scalingFactor_double d = Num s \<and> 0 < s
           \<and> normalizedDistance_double (Num v) d = Num a
           \<and> normalizedDistance_double (Num w) d = Num b \<and> a \<le> b"
proof -
  obtain s where s: "scalingFactor_double d = Num s" "1 \<le> s" "s \<le> 2 ^ 28"
    using scalingFactor_double_bounds [OF assms(1,2)] by blast
  have v: "normalizedDistance_double (Num v) d
           = Num (round_double (round_double (round_double (v - 1) * s) + 1))"
    using assms(3,4,5) by (intro normalizedDistance_double_value [OF s]) simp_all
  have w: "normalizedDistance_double (Num w) d
           = Num (round_double (round_double (round_double (w - 1) * s) + 1))"
    using assms(3,4,5) by (intro normalizedDistance_double_value [OF s]) simp_all
  have "round_double (v - 1) \<le> round_double (w - 1)"
    using assms(4) by (intro round_double_mono) simp
  then have "round_double (v - 1) * s \<le> round_double (w - 1) * s"
    using s(2) by (intro mult_right_mono) simp_all
  then have "round_double (round_double (v - 1) * s) \<le> round_double (round_double (w - 1) * s)"
    by (rule round_double_mono)
  then have "round_double (round_double (round_double (v - 1) * s) + 1)
      \<le> round_double (round_double (round_double (w - 1) * s) + 1)"
    by (intro round_double_mono) simp
  then show ?thesis using s v w by auto
qed

lemma normalizedDistance_double_separates:
  assumes d: "1 \<le> d" "d \<le> 2 ^ 53" and v: "0 \<le> v" and w: "w \<le> 2"
    and gap: "v + 1 / 2 ^ 49 \<le> w"
  shows "\<exists>a b. normalizedDistance_double (Num v) d = Num a
           \<and> normalizedDistance_double (Num w) d = Num b \<and> a < b"
proof -
  obtain s where s: "scalingFactor_double d = Num s" "1 \<le> s" "s \<le> 2 ^ 28"
    using scalingFactor_double_bounds [OF d] by blast
  have small: "(0::real) < 1 / 2 ^ 49" by simp
  have v2: "v \<le> 2" and w0: "0 \<le> w" using gap v w small by linarith+
  define a1 where "a1 = round_double (v - 1)"
  define a2 where "a2 = round_double (w - 1)"
  define p1 where "p1 = round_double (a1 * s)"
  define p2 where "p2 = round_double (a2 * s)"
  have nv: "normalizedDistance_double (Num v) d = Num (round_double (p1 + 1))"
    unfolding p1_def a1_def using normalizedDistance_double_value [OF s v v2] .
  have nw: "normalizedDistance_double (Num w) d = Num (round_double (p2 + 1))"
    unfolding p2_def a2_def using normalizedDistance_double_value [OF s w0 w] .
  have one: "(2::real) powr (- 1022) \<le> 1"
    using powr_mono [of "- 1022" 0 "2::real"] by simp
  have sy: "(2::real) powr (- 1022) \<le> s" using one s(2) by linarith
  have sy3: "(2::real) powr (- 1022) \<le> 3 * s" using one s(2) by linarith
  have e1: "\<bar>a1 - (v - 1)\<bar> \<le> 1 / 2 ^ 53"
    unfolding a1_def using round_double_absolute [of "v - 1" 1] v v2 one by simp
  have e2: "\<bar>a2 - (w - 1)\<bar> \<le> 1 / 2 ^ 53"
    unfolding a2_def using round_double_absolute [of "w - 1" 1] w w0 one by simp
  have b1: "\<bar>a1\<bar> \<le> 1"
    unfolding a1_def using round_double_bounded [of "v - 1" 0] v v2 by simp
  have b2: "\<bar>a2\<bar> \<le> 1"
    unfolding a2_def using round_double_bounded [of "w - 1" 0] w w0 by simp
  have m1: "\<bar>a1 * s\<bar> \<le> s"
  proof -
    have "\<bar>a1\<bar> * s \<le> 1 * s" using b1 s(2) by (intro mult_right_mono) simp_all
    then show ?thesis using s(2) by (simp add: abs_mult)
  qed
  have m2: "\<bar>a2 * s\<bar> \<le> s"
  proof -
    have "\<bar>a2\<bar> * s \<le> 1 * s" using b2 s(2) by (intro mult_right_mono) simp_all
    then show ?thesis using s(2) by (simp add: abs_mult)
  qed
  have f1: "\<bar>p1 - a1 * s\<bar> \<le> s / 2 ^ 53"
    unfolding p1_def by (rule round_double_absolute [OF m1 sy])
  have f2: "\<bar>p2 - a2 * s\<bar> \<le> s / 2 ^ 53"
    unfolding p2_def by (rule round_double_absolute [OF m2 sy])
  have "s / 2 ^ 53 \<le> s" using s(2) by simp
  then have q1: "\<bar>p1 + 1\<bar> \<le> 3 * s" and q2: "\<bar>p2 + 1\<bar> \<le> 3 * s"
    using f1 f2 m1 m2 s(2) by linarith+
  have g1: "\<bar>round_double (p1 + 1) - (p1 + 1)\<bar> \<le> 3 * s / 2 ^ 53"
    by (rule round_double_absolute [OF q1 sy3])
  have g2: "\<bar>round_double (p2 + 1) - (p2 + 1)\<bar> \<le> 3 * s / 2 ^ 53"
    by (rule round_double_absolute [OF q2 sy3])
  have "1 / 2 ^ 49 - 2 / 2 ^ 53 \<le> a2 - a1" using e1 e2 gap by linarith
  then have "(1 / 2 ^ 49 - 2 / 2 ^ 53) * s \<le> (a2 - a1) * s"
    using s(2) by (intro mult_right_mono) simp_all
  then have "s / 2 ^ 49 - 2 * s / 2 ^ 53 \<le> a2 * s - a1 * s"
    by (simp add: algebra_simps)
  then have "s / 2 ^ 49 - 4 * s / 2 ^ 53 \<le> p2 - p1" using f1 f2 by linarith
  then have low: "s / 2 ^ 49 - 10 * s / 2 ^ 53 \<le> round_double (p2 + 1) - round_double (p1 + 1)"
    using g1 g2 by linarith
  have "0 < s * (1 / 2 ^ 49 - 10 / 2 ^ 53)" using s(2) by simp
  then have "0 < s / 2 ^ 49 - 10 * s / 2 ^ 53" by (simp add: algebra_simps)
  then have "round_double (p1 + 1) < round_double (p2 + 1)" using low by linarith
  then show ?thesis using nv nw by blast
qed

text \<open>
  The three operations of line 108, each with its rounding, on the distances of the
  examples below.
\<close>

lemma low_centered: "double_sub (Num (3898476867653967 / 2 ^ 51)) (Num 1) = Num (1646677053968719 / 2 ^ 51)"
proof -
  have "round_half_even (((3898476867653967 / 2 ^ 51) - 1) * 2 ^ 53) = 6586708215874876"
    by (rule rhe_between) simp_all
  then have "round_double ((3898476867653967 / 2 ^ 51) - 1) = 6586708215874876 / 2 ^ 53"
    by (subst round_double_at_neg [of 53]) simp_all
  then have r: "round_double ((3898476867653967 / 2 ^ 51) - 1) = (1646677053968719 / 2 ^ 51)"
    by simp
  show ?thesis
    by (rule double_sub_eval [OF r]) simp
qed

lemma low_scaled: "double_mul (Num (1646677053968719 / 2 ^ 51)) (Num (2388394377197165 / 2 ^ 50)) = Num (6986259067713407 / 2 ^ 52)"
proof -
  have "round_half_even (((1646677053968719 / 2 ^ 51) * (2388394377197165 / 2 ^ 50)) * 2 ^ 52) = 6986259067713407"
    by (rule rhe_between) simp_all
  then have "round_double ((1646677053968719 / 2 ^ 51) * (2388394377197165 / 2 ^ 50)) = 6986259067713407 / 2 ^ 52"
    by (subst round_double_at_neg [of 52]) simp_all
  then have r: "round_double ((1646677053968719 / 2 ^ 51) * (2388394377197165 / 2 ^ 50)) = (6986259067713407 / 2 ^ 52)"
    by simp
  show ?thesis
    by (rule double_mul_eval [OF r]) simp
qed

lemma low_normalized: "double_add (Num (6986259067713407 / 2 ^ 52)) (Num 1) = Num (89764521055343 / 2 ^ 45)"
proof -
  have "round_half_even (((6986259067713407 / 2 ^ 52) + 1) * 2 ^ 51) = 5744929347541952"
    using rhe_tie [of "((6986259067713407 / 2 ^ 52) + 1) * 2 ^ 51" 5744929347541951] by simp
  then have "round_double ((6986259067713407 / 2 ^ 52) + 1) = 5744929347541952 / 2 ^ 51"
    by (subst round_double_at_neg [of 51]) simp_all
  then have r: "round_double ((6986259067713407 / 2 ^ 52) + 1) = (89764521055343 / 2 ^ 45)"
    by simp
  show ?thesis
    by (rule double_add_eval [OF r]) simp
qed

lemma high_centered: "double_sub (Num (7796953735307935 / 2 ^ 52)) (Num 1) = Num (3293354107937439 / 2 ^ 52)"
proof -
  have "round_half_even (((7796953735307935 / 2 ^ 52) - 1) * 2 ^ 53) = 6586708215874878"
    by (rule rhe_between) simp_all
  then have "round_double ((7796953735307935 / 2 ^ 52) - 1) = 6586708215874878 / 2 ^ 53"
    by (subst round_double_at_neg [of 53]) simp_all
  then have r: "round_double ((7796953735307935 / 2 ^ 52) - 1) = (3293354107937439 / 2 ^ 52)"
    by simp
  show ?thesis
    by (rule double_sub_eval [OF r]) simp
qed

lemma high_scaled: "double_mul (Num (3293354107937439 / 2 ^ 52)) (Num (2388394377197165 / 2 ^ 50)) = Num (6986259067713409 / 2 ^ 52)"
proof -
  have "round_half_even (((3293354107937439 / 2 ^ 52) * (2388394377197165 / 2 ^ 50)) * 2 ^ 52) = 6986259067713409"
    by (rule rhe_between) simp_all
  then have "round_double ((3293354107937439 / 2 ^ 52) * (2388394377197165 / 2 ^ 50)) = 6986259067713409 / 2 ^ 52"
    by (subst round_double_at_neg [of 52]) simp_all
  then have r: "round_double ((3293354107937439 / 2 ^ 52) * (2388394377197165 / 2 ^ 50)) = (6986259067713409 / 2 ^ 52)"
    by simp
  show ?thesis
    by (rule double_mul_eval [OF r]) simp
qed

lemma high_normalized: "double_add (Num (6986259067713409 / 2 ^ 52)) (Num 1) = Num (89764521055343 / 2 ^ 45)"
proof -
  have "round_half_even (((6986259067713409 / 2 ^ 52) + 1) * 2 ^ 51) = 5744929347541952"
    using rhe_tie [of "((6986259067713409 / 2 ^ 52) + 1) * 2 ^ 51" 5744929347541952] by simp
  then have "round_double ((6986259067713409 / 2 ^ 52) + 1) = 5744929347541952 / 2 ^ 51"
    by (subst round_double_at_neg [of 51]) simp_all
  then have r: "round_double ((6986259067713409 / 2 ^ 52) + 1) = (89764521055343 / 2 ^ 45)"
    by simp
  show ?thesis
    by (rule double_add_eval [OF r]) simp
qed

lemma near_centered: "double_sub (Num (1 / 2)) (Num 1) = Num (- (1 / 2))"
proof -
  have "round_half_even (((1 / 2) - 1) * 2 ^ 53) = -4503599627370496"
    by (rule rhe_between) simp_all
  then have "round_double ((1 / 2) - 1) = -4503599627370496 / 2 ^ 53"
    by (subst round_double_at_neg [of 53]) simp_all
  then have r: "round_double ((1 / 2) - 1) = (- (1 / 2))"
    by simp
  show ?thesis
    by (rule double_sub_eval [OF r]) simp
qed

lemma near_scaled: "double_mul (Num (- (1 / 2))) (Num 2) = Num (- 1)"
proof -
  have "round_half_even (((- (1 / 2)) * 2) * 2 ^ 52) = -4503599627370496"
    by (rule rhe_between) simp_all
  then have "round_double ((- (1 / 2)) * 2) = -4503599627370496 / 2 ^ 52"
    by (subst round_double_at_neg [of 52]) simp_all
  then have r: "round_double ((- (1 / 2)) * 2) = (- 1)"
    by simp
  show ?thesis
    by (rule double_mul_eval [OF r]) simp
qed

lemma near_normalized: "double_add (Num (- 1)) (Num 1) = Num 0"
proof -
  have r: "round_double ((- 1) + 1) = 0"
    by (simp add: round_double_def)
  show ?thesis
    by (rule double_add_eval [OF r]) simp
qed

lemma far_centered: "double_sub (Num (3 / 2)) (Num 1) = Num (1 / 2)"
proof -
  have "round_half_even (((3 / 2) - 1) * 2 ^ 53) = 4503599627370496"
    by (rule rhe_between) simp_all
  then have "round_double ((3 / 2) - 1) = 4503599627370496 / 2 ^ 53"
    by (subst round_double_at_neg [of 53]) simp_all
  then have r: "round_double ((3 / 2) - 1) = (1 / 2)"
    by simp
  show ?thesis
    by (rule double_sub_eval [OF r]) simp
qed

lemma far_scaled: "double_mul (Num (1 / 2)) (Num 2) = Num 1"
proof -
  have "round_half_even (((1 / 2) * 2) * 2 ^ 52) = 4503599627370496"
    by (rule rhe_between) simp_all
  then have "round_double ((1 / 2) * 2) = 4503599627370496 / 2 ^ 52"
    by (subst round_double_at_neg [of 52]) simp_all
  then have r: "round_double ((1 / 2) * 2) = 1"
    by simp
  show ?thesis
    by (rule double_mul_eval [OF r]) simp
qed

lemma far_normalized: "double_add (Num 1) (Num 1) = Num 2"
proof -
  have "round_half_even ((1 + 1) * 2 ^ 51) = 4503599627370496"
    by (rule rhe_between) simp_all
  then have "round_double (1 + 1) = 4503599627370496 / 2 ^ 51"
    by (subst round_double_at_neg [of 51]) simp_all
  then have r: "round_double (1 + 1) = 2"
    by simp
  show ?thesis
    by (rule double_add_eval [OF r]) simp
qed

lemma below_one_centered: "double_sub (Num (9007199254740991 / 2 ^ 53)) (Num 1) = Num (- (1 / 2 ^ 53))"
proof -
  have "round_half_even (((9007199254740991 / 2 ^ 53) - 1) * 2 ^ 105) = -4503599627370496"
    by (rule rhe_between) simp_all
  then have "round_double ((9007199254740991 / 2 ^ 53) - 1) = -4503599627370496 / 2 ^ 105"
    by (subst round_double_at_neg [of 105]) simp_all
  then have r: "round_double ((9007199254740991 / 2 ^ 53) - 1) = (- (1 / 2 ^ 53))"
    by simp
  show ?thesis
    by (rule double_sub_eval [OF r]) simp
qed

lemma below_one_scaled: "double_mul (Num (- (1 / 2 ^ 53))) (Num 2) = Num (- (1 / 2 ^ 52))"
proof -
  have "round_half_even (((- (1 / 2 ^ 53)) * 2) * 2 ^ 104) = -4503599627370496"
    by (rule rhe_between) simp_all
  then have "round_double ((- (1 / 2 ^ 53)) * 2) = -4503599627370496 / 2 ^ 104"
    by (subst round_double_at_neg [of 104]) simp_all
  then have r: "round_double ((- (1 / 2 ^ 53)) * 2) = (- (1 / 2 ^ 52))"
    by simp
  show ?thesis
    by (rule double_mul_eval [OF r]) simp
qed

lemma below_one_normalized: "double_add (Num (- (1 / 2 ^ 52))) (Num 1) = Num (4503599627370495 / 2 ^ 52)"
proof -
  have "round_half_even (((- (1 / 2 ^ 52)) + 1) * 2 ^ 53) = 9007199254740990"
    by (rule rhe_between) simp_all
  then have "round_double ((- (1 / 2 ^ 52)) + 1) = 9007199254740990 / 2 ^ 53"
    by (subst round_double_at_neg [of 53]) simp_all
  then have r: "round_double ((- (1 / 2 ^ 52)) + 1) = (4503599627370495 / 2 ^ 52)"
    by simp
  show ?thesis
    by (rule double_add_eval [OF r]) simp
qed

lemma same_vector_centered: "double_sub (Num 0) (Num 1) = Num (- 1)"
proof -
  have "round_half_even ((0 - 1) * 2 ^ 52) = -4503599627370496"
    by (rule rhe_between) simp_all
  then have "round_double (0 - 1) = -4503599627370496 / 2 ^ 52"
    by (subst round_double_at_neg [of 52]) simp_all
  then have r: "round_double (0 - 1) = (- 1)"
    by simp
  show ?thesis
    by (rule double_sub_eval [OF r]) simp
qed

lemma same_vector_scaled: "double_mul (Num (- 1)) (Num (2388394377197165 / 2 ^ 50)) = Num (- (2388394377197165 / 2 ^ 50))"
proof -
  have "round_half_even (((- 1) * (2388394377197165 / 2 ^ 50)) * 2 ^ 51) = -4776788754394330"
    by (rule rhe_between) simp_all
  then have "round_double ((- 1) * (2388394377197165 / 2 ^ 50)) = -4776788754394330 / 2 ^ 51"
    by (subst round_double_at_neg [of 51]) simp_all
  then have r: "round_double ((- 1) * (2388394377197165 / 2 ^ 50)) = (- (2388394377197165 / 2 ^ 50))"
    by simp
  show ?thesis
    by (rule double_mul_eval [OF r]) simp
qed

lemma same_vector_normalized: "double_add (Num (- (2388394377197165 / 2 ^ 50))) (Num 1) = Num (- (1262494470354541 / 2 ^ 50))"
proof -
  have "round_half_even (((- (2388394377197165 / 2 ^ 50)) + 1) * 2 ^ 52) = -5049977881418164"
    by (rule rhe_between) simp_all
  then have "round_double ((- (2388394377197165 / 2 ^ 50)) + 1) = -5049977881418164 / 2 ^ 52"
    by (subst round_double_at_neg [of 52]) simp_all
  then have r: "round_double ((- (2388394377197165 / 2 ^ 50)) + 1) = (- (1262494470354541 / 2 ^ 50))"
    by simp
  show ?thesis
    by (rule double_add_eval [OF r]) simp
qed

lemma opposite_vector_centered: "double_sub (Num 2) (Num 1) = Num 1"
proof -
  have "round_half_even ((2 - 1) * 2 ^ 52) = 4503599627370496"
    by (rule rhe_between) simp_all
  then have "round_double (2 - 1) = 4503599627370496 / 2 ^ 52"
    by (subst round_double_at_neg [of 52]) simp_all
  then have r: "round_double (2 - 1) = 1"
    by simp
  show ?thesis
    by (rule double_sub_eval [OF r]) simp
qed

lemma opposite_vector_scaled: "double_mul (Num 1) (Num 4) = Num 4"
proof -
  have "round_half_even ((1 * 4) * 2 ^ 50) = 4503599627370496"
    by (rule rhe_between) simp_all
  then have "round_double (1 * 4) = 4503599627370496 / 2 ^ 50"
    by (subst round_double_at_neg [of 50]) simp_all
  then have r: "round_double (1 * 4) = 4"
    by simp
  show ?thesis
    by (rule double_mul_eval [OF r]) simp
qed

lemma opposite_vector_normalized: "double_add (Num 4) (Num 1) = Num 5"
proof -
  have "round_half_even ((4 + 1) * 2 ^ 50) = 5629499534213120"
    by (rule rhe_between) simp_all
  then have "round_double (4 + 1) = 5629499534213120 / 2 ^ 50"
    by (subst round_double_at_neg [of 50]) simp_all
  then have r: "round_double (4 + 1) = 5"
    by simp
  show ?thesis
    by (rule double_add_eval [OF r]) simp
qed

lemma scaling_two: "double_mul (Num (6369051672525773 / 2 ^ 52)) (Num (3 / 2)) = Num (2388394377197165 / 2 ^ 50)"
proof -
  have "round_half_even (((6369051672525773 / 2 ^ 52) * (3 / 2)) * 2 ^ 51) = 4776788754394330"
    by (rule rhe_between) simp_all
  then have "round_double ((6369051672525773 / 2 ^ 52) * (3 / 2)) = 4776788754394330 / 2 ^ 51"
    by (subst round_double_at_neg [of 51]) simp_all
  then have r: "round_double ((6369051672525773 / 2 ^ 52) * (3 / 2)) = (2388394377197165 / 2 ^ 50)"
    by simp
  show ?thesis
    by (rule double_mul_eval [OF r]) simp
qed

lemma scalingFactor_double_unfold:
  "scalingFactor_double d =
     (if d \<le> 3 then double_mul (double_sqrt (Num (real d))) (Num (3 / 2))
      else double_sqrt (Num (real d)))"
  by (simp add: scalingFactor_double_def)

lemma normalizedDistance_double_unfold:
  "normalizedDistance_double x d =
     double_add (double_mul (double_sub x (Num 1)) (scalingFactor_double d)) (Num 1)"
  by (simp add: normalizedDistance_double_def)

lemma double_sqrt_two: "double_sqrt (Num 2) = Num (6369051672525773 / 2 ^ 52)"
proof -
  have "js_round (Num (sqrt 2)) = Num (round_double (sqrt 2))"
    by (rule js_round_Num(1) [of _ 1]) (simp_all add: real_le_lsqrt)
  then show ?thesis
    by (simp add: double_sqrt_def sqrt2_double)
qed

lemma double_sqrt_square:
  assumes "k \<le> 511"
  shows "double_sqrt (Num (2 ^ k * 2 ^ k)) = Num (2 ^ k)"
proof -
  have "sqrt (2 ^ k * 2 ^ k) = (2::real) ^ k" by simp
  moreover have "js_round (Num (2 ^ k)) = Num (round_double (2 ^ k))"
    by (rule js_round_Num(1) [of _ k]) (use assms in simp_all)
  moreover have "round_double (2 ^ k) = 2 ^ k"
    using assms by (intro round_double_power) simp
  ultimately show ?thesis by (simp add: double_sqrt_def)
qed

lemma scalingFactor_double_two: "scalingFactor_double 2 = Num (2388394377197165 / 2 ^ 50)"
proof -
  have "scalingFactor_double 2 = double_mul (double_sqrt (Num 2)) (Num (3 / 2))"
    by (simp add: scalingFactor_double_unfold)
  then show ?thesis
    by (simp only: double_sqrt_two scaling_two)
qed

lemma scalingFactor_double_four: "scalingFactor_double 4 = Num 2"
  using double_sqrt_square [of 1] by (simp add: scalingFactor_double_unfold)

lemma scalingFactor_double_sixteen: "scalingFactor_double 16 = Num 4"
  using double_sqrt_square [of 2] by (simp add: scalingFactor_double_unfold)

lemma low_value:
  "normalizedDistance_double (Num (3898476867653967 / 2 ^ 51)) 2 = Num (89764521055343 / 2 ^ 45)"
  by (simp only: normalizedDistance_double_unfold scalingFactor_double_two
      low_centered low_scaled low_normalized)

lemma high_value:
  "normalizedDistance_double (Num (7796953735307935 / 2 ^ 52)) 2 = Num (89764521055343 / 2 ^ 45)"
  by (simp only: normalizedDistance_double_unfold scalingFactor_double_two
      high_centered high_scaled high_normalized)

lemma near_value: "normalizedDistance_double (Num (1 / 2)) 4 = Num 0"
  by (simp only: normalizedDistance_double_unfold scalingFactor_double_four
      near_centered near_scaled near_normalized)

lemma far_value: "normalizedDistance_double (Num (3 / 2)) 4 = Num 2"
  by (simp only: normalizedDistance_double_unfold scalingFactor_double_four
      far_centered far_scaled far_normalized)

lemma below_one_value:
  "normalizedDistance_double (Num (9007199254740991 / 2 ^ 53)) 4
     = Num (4503599627370495 / 2 ^ 52)"
  by (simp only: normalizedDistance_double_unfold scalingFactor_double_four
      below_one_centered below_one_scaled below_one_normalized)

lemma same_vector_value:
  "normalizedDistance_double (Num 0) 2 = Num (- (1262494470354541 / 2 ^ 50))"
  by (simp only: normalizedDistance_double_unfold scalingFactor_double_two
      same_vector_centered same_vector_scaled same_vector_normalized)

lemma opposite_vector_value: "normalizedDistance_double (Num 2) 16 = Num 5"
  by (simp only: normalizedDistance_double_unfold scalingFactor_double_sixteen
      opposite_vector_centered opposite_vector_scaled opposite_vector_normalized)

text \<open>
  Claim C10, as stated, fails in the arithmetic of the code. In dimension 2 the
  scaling factor is the double \<open>2388394377197165 / 2 ^ 50\<close>, and the two doubles
  \<open>3898476867653967 / 2 ^ 51\<close> and \<open>7796953735307935 / 2 ^ 52\<close> (1.7312715117751973 and
  1.7312715117751976, one unit in the last place apart) have the same normalized
  distance \<open>89764521055343 / 2 ^ 45\<close> (2.5512611345943412): the sum of line 108 is a
  tie for both, and both ties round to the same double. The map is not strictly
  increasing.
\<close>

theorem normalization_merges_distances_counterexample:
  "(3898476867653967 / 2 ^ 51 :: real) < 7796953735307935 / 2 ^ 52
   \<and> scalingFactor_double 2 = Num (2388394377197165 / 2 ^ 50)
   \<and> normalizedDistance_double (Num (3898476867653967 / 2 ^ 51)) 2
       = Num (89764521055343 / 2 ^ 45)
   \<and> normalizedDistance_double (Num (7796953735307935 / 2 ^ 52)) 2
       = Num (89764521055343 / 2 ^ 45)
   \<and> \<not> js_lt (normalizedDistance_double (Num (3898476867653967 / 2 ^ 51)) 2)
            (normalizedDistance_double (Num (7796953735307935 / 2 ^ 52)) 2)"
proof -
  have "(3898476867653967 / 2 ^ 51 :: real) < 7796953735307935 / 2 ^ 52" by simp
  moreover have "\<not> js_lt (Num (89764521055343 / 2 ^ 45)) (Num (89764521055343 / 2 ^ 45))"
    by simp
  ultimately show ?thesis
    unfolding low_value high_value using scalingFactor_double_two by blast
qed

text \<open>
  Claim C10, amended. For every dimension \<open>d\<close> from 1 to \<open>2 ^ 53\<close> the scaling factor
  the code computes is a positive double, and the normalization of line 108, computed
  in doubles, is non-decreasing on the distances in \<open>[0, 2]\<close>: a smaller distance
  never gets the larger normalized distance, so two normalized distances that differ
  are in the order of the distances they come from. It is strictly increasing on
  distances that are at least \<open>2 ^ (- 49)\<close> apart.
\<close>

theorem normalizedDistance_double_nondecreasing:
  assumes "1 \<le> d" and "d \<le> 2 ^ 53" and "0 \<le> v" and "v \<le> 2" and "0 \<le> w" and "w \<le> 2"
  shows "\<exists>s a b. scalingFactor_double d = Num s \<and> 0 < s
           \<and> normalizedDistance_double (Num v) d = Num a
           \<and> normalizedDistance_double (Num w) d = Num b
           \<and> (v \<le> w \<longrightarrow> a \<le> b) \<and> (a < b \<longrightarrow> v < w)
           \<and> (v + 1 / 2 ^ 49 \<le> w \<longrightarrow> a < b)"
proof (cases "v \<le> w")
  case True
  obtain s a b where r: "scalingFactor_double d = Num s" "0 < s"
      "normalizedDistance_double (Num v) d = Num a"
      "normalizedDistance_double (Num w) d = Num b" "a \<le> b"
    using normalizedDistance_double_mono [OF assms(1,2,3) True assms(6)] by blast
  have "a < b \<longrightarrow> v < w"
  proof
    assume ab: "a < b"
    have "v \<noteq> w"
    proof
      assume "v = w"
      then have "Num a = Num b" using r(3,4) by simp
      then show False using ab by simp
    qed
    then show "v < w" using True by simp
  qed
  moreover have "v + 1 / 2 ^ 49 \<le> w \<longrightarrow> a < b"
  proof
    assume "v + 1 / 2 ^ 49 \<le> w"
    then obtain a' b' where "normalizedDistance_double (Num v) d = Num a'"
        "normalizedDistance_double (Num w) d = Num b'" "a' < b'"
      using normalizedDistance_double_separates [OF assms(1,2,3,6)] by blast
    then show "a < b" using r(3,4) by simp
  qed
  ultimately show ?thesis using r by blast
next
  case False
  then have wv: "w \<le> v" by simp
  obtain s b a where r: "scalingFactor_double d = Num s" "0 < s"
      "normalizedDistance_double (Num w) d = Num b"
      "normalizedDistance_double (Num v) d = Num a" "b \<le> a"
    using normalizedDistance_double_mono [OF assms(1,2,5) wv assms(4)] by blast
  have "\<not> a < b" using r(5) by simp
  moreover have "\<not> v + 1 / 2 ^ 49 \<le> w"
  proof -
    have "(0::real) < 1 / 2 ^ 49" by simp
    then show ?thesis using False by linarith
  qed
  ultimately show ?thesis using r False by blast
qed

theorem normalizedDistance_double_nondecreasing_witness:
  "(1::nat) \<le> 4 \<and> (4::nat) \<le> 2 ^ 53 \<and> (0::real) \<le> 1 / 2 \<and> (1 / 2 :: real) \<le> 2
   \<and> (0::real) \<le> 3 / 2 \<and> (3 / 2 :: real) \<le> 2 \<and> (1 / 2 :: real) \<le> 3 / 2
   \<and> (1 / 2 + 1 / 2 ^ 49 :: real) \<le> 3 / 2
   \<and> scalingFactor_double 4 = Num 2
   \<and> normalizedDistance_double (Num (1 / 2)) 4 = Num 0
   \<and> normalizedDistance_double (Num (3 / 2)) 4 = Num 2
   \<and> (\<exists>s a b. scalingFactor_double 4 = Num s \<and> 0 < s
           \<and> normalizedDistance_double (Num (1 / 2)) 4 = Num a
           \<and> normalizedDistance_double (Num (3 / 2)) 4 = Num b \<and> a \<le> b \<and> a < b)"
proof -
  have h: "(1::nat) \<le> 4" "(4::nat) \<le> 2 ^ 53" "(0::real) \<le> 1 / 2" "(1 / 2 :: real) \<le> 2"
      "(0::real) \<le> 3 / 2" "(3 / 2 :: real) \<le> 2"
    by simp_all
  have o: "(1 / 2 :: real) \<le> 3 / 2" "(1 / 2 + 1 / 2 ^ 49 :: real) \<le> 3 / 2" by simp_all
  have "\<exists>s a b. scalingFactor_double 4 = Num s \<and> 0 < s
           \<and> normalizedDistance_double (Num (1 / 2)) 4 = Num a
           \<and> normalizedDistance_double (Num (3 / 2)) 4 = Num b \<and> a \<le> b \<and> a < b"
    using normalizedDistance_double_nondecreasing [OF h] o by blast
  then show ?thesis
    using h o scalingFactor_double_four near_value far_value by blast
qed

section \<open>The vector sampler\<close>

lemma boxMuller_Num:
  "0 < u \<Longrightarrow> u < 1 \<Longrightarrow> boxMuller u v = Num (sqrt (- 2 * ln u) * cos (2 * pi * v))"
  by (simp add: boxMuller_def mult_nonneg_nonpos2)

lemma unit_vector_dimension_one:
  assumes "0 < u" "u < 1" "v \<noteq> 0" "cos (2 * pi * v) \<noteq> 0"
  shows "generateRandomUnitVector (Suc 0) (u # v # rest) = Some ([Num (sgn (cos (2 * pi * v)))], rest)"
proof -
  define c where "c = cos (2 * pi * v)"
  define a where "a = sqrt (- 2 * ln u)"
  define w where "w = a * c"
  have "0 < - 2 * ln u" using assms(1,2) by simp
  then have apos: "0 < a" unfolding a_def by (simp only: real_sqrt_gt_0_iff)
  have wn0: "w \<noteq> 0" using apos assms(4) by (simp add: w_def c_def)
  have b: "boxMuller u v = Num w"
    unfolding w_def a_def c_def by (rule boxMuller_Num) (rule assms)+
  have n: "normalRandom (u # v # rest) = Some (Num w, rest)"
    using assms(1,3) by (simp add: normalRandom_def b)
  have f: "fillVector 0 (Suc 0) [] (Num 0) (u # v # rest) = Some ([Num w], Num (w * w), rest)"
    by (subst fillVector.simps, simp add: n, subst fillVector.simps, simp)
  have q: "w / \<bar>w\<bar> = sgn c"
    using apos wn0 by (simp add: w_def sgn_real_def abs_mult field_simps split: if_splits)
  have d: "divideVector 0 (Suc 0) (Num \<bar>w\<bar>) [Num w] = [Num (sgn c)]"
    using wn0 q
    by (subst divideVector.simps, simp add: js_index_def, subst divideVector.simps, simp)
  show ?thesis
    by (simp add: generateRandomUnitVector_def f d c_def [symmetric])
qed

lemma unit_vector_minus:
  "generateRandomUnitVector (Suc 0) (1 / 2 # 1 / 2 # rest) = Some ([Num (- 1)], rest)"
  using unit_vector_dimension_one [of "1 / 2" "1 / 2" rest] by simp

lemma unit_vector_plus:
  "generateRandomUnitVector (Suc 0) (1 / 2 # 1 / 8 # rest) = Some ([Num 1], rest)"
proof -
  have "2 * pi * (1 / 8) = pi / 4" by simp
  then have c: "cos (2 * pi * (1 / 8)) = sqrt 2 / 2"
    using cos_45 by (simp only:)
  have pos: "0 < cos (2 * pi * (1 / 8))"
    unfolding c by simp
  then have n0: "cos (2 * pi * (1 / 8)) \<noteq> 0" and sg: "sgn (cos (2 * pi * (1 / 8))) = 1"
    by simp_all
  have "generateRandomUnitVector (Suc 0) (1 / 2 # 1 / 8 # rest)
          = Some ([Num (sgn (cos (2 * pi * (1 / 8))))], rest)"
    by (rule unit_vector_dimension_one [OF _ _ _ n0]) simp_all
  then show ?thesis by (simp only: sg)
qed

section \<open>The distance in exact arithmetic\<close>

lemma dotProductLoop_NaN: "dotProductLoop i vec1 vec2 NaN = NaN"
  by (induction i vec1 vec2 NaN rule: dotProductLoop.induct)
     (simp add: dotProductLoop.simps)

lemma dotProductLoop_short:
  "length vec2 < length vec1 \<Longrightarrow> i \<le> length vec2 \<Longrightarrow> dotProductLoop i vec1 vec2 acc = NaN"
proof (induction "length vec2 - i" arbitrary: i acc)
  case 0
  then have "i = length vec2" by simp
  then show ?case using 0
    by (subst dotProductLoop.simps) (simp add: js_index_def dotProductLoop_NaN)
next
  case (Suc k)
  then show ?case
    by (subst dotProductLoop.simps) simp
qed

lemma dotProductLoop_take:
  "length vec1 \<le> length vec2 \<Longrightarrow>
   dotProductLoop i vec1 (take (length vec1) vec2) acc = dotProductLoop i vec1 vec2 acc"
proof (induction "length vec1 - i" arbitrary: i acc)
  case 0
  then show ?case by (simp add: dotProductLoop.simps)
next
  case (Suc k)
  then have lt: "i < length vec1" by simp
  then have "js_index (take (length vec1) vec2) i = js_index vec2 i"
    using Suc.prems by (simp add: js_index_def)
  then show ?case using Suc lt
    by (subst dotProductLoop.simps, subst (2) dotProductLoop.simps) simp
qed

lemma distance_opposite: "calculateCosineDistance [Num 1] [Num (- 1)] = Num 2"
  by (simp add: calculateCosineDistance_def dotProductLoop.simps js_index_def)

lemma distance_same: "calculateCosineDistance [Num (- 1)] [Num (- 1)] = Num 0"
  by (simp add: calculateCosineDistance_def dotProductLoop.simps js_index_def)

lemma first_example_sample:
  "sampleBody (Suc 0) (initial_state example_tape) = Some first_example_state"
  by (simp add: sampleBody_def initial_state_def example_tape_def first_example_state_def
      unit_vector_plus unit_vector_minus distance_opposite clampDistance_Num
      normalizedDistance_of_Num Let_def)

section \<open>Vectors of unequal length\<close>

text \<open>
  Claim C3, as stated, fails: the function has no length test and no failure. For a
  first vector of length 1 and a second of length 2 it returns the number 0.
\<close>

theorem unequal_lengths_return_counterexample:
  "length [Num 1] \<noteq> length [Num 1, Num 5]
   \<and> calculateCosineDistance [Num 1] [Num 1, Num 5] = Num 0"
  by (simp add: calculateCosineDistance_def dotProductLoop.simps js_index_def)

text \<open>
  Claim C3, amended. On vectors of unequal length \<open>calculateCosineDistance\<close> returns
  a number: \<open>NaN\<close> when the second vector is the shorter one (the loop reads past its
  end), and otherwise the distance to the second vector cut to the length of the
  first (its further coordinates are never read).
\<close>

theorem calculateCosineDistance_unequal_lengths:
  assumes "length vec1 \<noteq> length vec2"
  shows "calculateCosineDistance vec1 vec2 =
           (if length vec2 < length vec1 then NaN
            else calculateCosineDistance vec1 (take (length vec1) vec2))"
  using assms
  by (simp add: calculateCosineDistance_def dotProductLoop_short dotProductLoop_take js_sub_def)

theorem calculateCosineDistance_unequal_lengths_witness:
  "length [Num 1, Num 5] \<noteq> length [Num 1]
   \<and> calculateCosineDistance [Num 1, Num 5] [Num 1] = NaN
   \<and> length [Num 1] \<noteq> length [Num 1, Num 5]
   \<and> calculateCosineDistance [Num 1] [Num 1, Num 5] = calculateCosineDistance [Num 1] [Num 1]"
  using calculateCosineDistance_unequal_lengths [of "[Num 1, Num 5]" "[Num 1]"]
        calculateCosineDistance_unequal_lengths [of "[Num 1]" "[Num 1, Num 5]"]
  by simp

section \<open>Enough nonzero draws make the sampler return\<close>

lemma normalRandom_total:
  "\<forall>r\<in>set t. r \<noteq> 0 \<Longrightarrow> 2 \<le> length t \<Longrightarrow> \<exists>z. normalRandom t = Some (z, drop 2 t)"
proof -
  assume nz: "\<forall>r\<in>set t. r \<noteq> 0" and len: "2 \<le> length t"
  then obtain a b rest where t: "t = a # b # rest"
    by (cases t; cases "tl t") auto
  show ?thesis using nz by (simp add: t normalRandom_def)
qed

lemma fillVector_total:
  "\<forall>r\<in>set t. r \<noteq> 0 \<Longrightarrow> 2 * (n - i) \<le> length t \<Longrightarrow>
   \<exists>vec s. fillVector i n v0 s0 t = Some (vec, s, drop (2 * (n - i)) t)"
proof (induction "n - i" arbitrary: i v0 s0 t)
  case 0
  then show ?case by (subst fillVector.simps) simp
next
  case (Suc k)
  then have lt: "i < n" and len: "2 \<le> length t" by simp_all
  obtain z where z: "normalRandom t = Some (z, drop 2 t)"
    using normalRandom_total [OF Suc.prems(1) len] by blast
  have nz: "\<forall>r\<in>set (drop 2 t). r \<noteq> 0"
    using Suc.prems(1) by (meson in_set_dropD)
  have len': "2 * (n - Suc i) \<le> length (drop 2 t)"
    using Suc.prems(2) lt by simp
  have k: "k = n - Suc i" using Suc.hyps(2) by simp
  obtain vec s where
    "fillVector (Suc i) n (v0 @ [z]) (js_add s0 (js_mul z z)) (drop 2 t)
       = Some (vec, s, drop (2 * (n - Suc i)) (drop 2 t))"
    using Suc.hyps(1) [OF k nz len'] by blast
  moreover have "2 * (n - Suc i) + 2 = 2 * (n - i)" using lt by simp
  ultimately show ?case
    using lt z by (subst fillVector.simps) simp
qed

lemma generateRandomUnitVector_total:
  "\<forall>r\<in>set t. r \<noteq> 0 \<Longrightarrow> 2 * n \<le> length t \<Longrightarrow>
   \<exists>vec. generateRandomUnitVector n t = Some (vec, drop (2 * n) t)"
  using fillVector_total [of t n 0 "[]" "Num 0"]
  by (auto simp: generateRandomUnitVector_def)

lemma sampleBody_total:
  assumes "\<forall>r\<in>set (random_tape st). r \<noteq> 0" and "4 * n \<le> length (random_tape st)"
  shows "\<exists>st'. sampleBody n st = Some st' \<and> random_tape st' = drop (4 * n) (random_tape st)"
proof -
  let ?t = "random_tape st"
  obtain v1 where v1: "generateRandomUnitVector n ?t = Some (v1, drop (2 * n) ?t)"
    using generateRandomUnitVector_total [OF assms(1), of n] assms(2) by auto
  have nz: "\<forall>r\<in>set (drop (2 * n) ?t). r \<noteq> 0"
    using assms(1) by (meson in_set_dropD)
  have len: "2 * n \<le> length (drop (2 * n) ?t)"
    using assms(2) by simp
  obtain v2 where
    v2: "generateRandomUnitVector n (drop (2 * n) ?t) = Some (v2, drop (2 * n) (drop (2 * n) ?t))"
    using generateRandomUnitVector_total [OF nz len] by blast
  have "drop (2 * n) (drop (2 * n) ?t) = drop (4 * n) ?t" by simp
  then show ?thesis
    by (simp add: sampleBody_def v1 v2 Let_def)
qed

lemma unbatchedLoop_total:
  "\<forall>r\<in>set (random_tape st). r \<noteq> 0 \<Longrightarrow> 4 * n * k \<le> length (random_tape st) \<Longrightarrow>
   \<exists>st'. unbatchedLoop n k st = Some st'"
proof (induction k arbitrary: st)
  case 0
  then show ?case by simp
next
  case (Suc k)
  have len: "4 * n \<le> length (random_tape st)"
    using Suc.prems(2) by simp
  obtain st1 where st1: "sampleBody n st = Some st1"
      "random_tape st1 = drop (4 * n) (random_tape st)"
    using sampleBody_total [OF Suc.prems(1) len] by blast
  have nz: "\<forall>r\<in>set (random_tape st1). r \<noteq> 0"
    using Suc.prems(1) st1(2) by (metis in_set_dropD)
  have "4 * n * k \<le> length (random_tape st1)"
    using Suc.prems(2) st1(2) by (simp add: algebra_simps)
  then show ?case
    using Suc.IH [OF nz] st1(1) by simp
qed

section \<open>Batches do not change the samples\<close>

lemma unbatchedLoop_add:
  "unbatchedLoop d (m + n) st =
     (case unbatchedLoop d m st of None \<Rightarrow> None | Some st' \<Rightarrow> unbatchedLoop d n st')"
  by (induction m arbitrary: st) (simp_all split: option.splits)

lemma innerLoop_unbatched:
  "innerLoop d i c st = unbatchedLoop d (nat (c - i)) st"
proof (induction d i c st rule: innerLoop.induct)
  case (1 d i c st)
  show ?case
  proof (cases "i < c")
    case True
    then have n: "nat (c - i) = Suc (nat (c - (i + 1)))" by simp
    show ?thesis
      using True 1 by (subst innerLoop.simps) (simp add: n split: option.splits)
  next
    case False
    then show ?thesis by (subst innerLoop.simps) simp
  qed
qed

lemma batch_lt_batches: "(b < batches_of n) = (b * 100 < n)"
proof -
  have "(b < batches_of n) = (real_of_int b < real_of_int n / 100)"
    by (simp add: batches_of_def batchSize_def less_ceiling_iff)
  also have "\<dots> = (b * 100 < n)"
    by (simp add: pos_less_divide_eq) linarith
  finally show ?thesis .
qed

lemma batchLoop_unbatched:
  "batchLoop d n b (batches_of n) st = unbatchedLoop d (nat (n - b * 100)) st"
proof (induction "nat (batches_of n - b)" arbitrary: b st)
  case 0
  then have nlt: "\<not> b < batches_of n" by simp
  then have "nat (n - b * 100) = 0"
    by (simp add: batch_lt_batches)
  then show ?case using nlt by (subst batchLoop.simps) simp
next
  case (Suc k)
  then have lt: "b < batches_of n" by simp
  then have pos: "b * 100 < n" by (simp add: batch_lt_batches)
  define c where "c = min batchSize (n - b * batchSize)"
  define m where "m = nat (n - (b + 1) * 100)"
  have split: "nat (n - b * 100) = nat c + m"
    using pos unfolding c_def m_def batchSize_def min_def by auto
  have ih: "batchLoop d n (b + 1) (batches_of n) st' = unbatchedLoop d m st'" for st'
    unfolding m_def using Suc(1) [of "b + 1"] Suc(2) by simp
  have "batchLoop d n b (batches_of n) st =
          (case innerLoop d 0 c st of None \<Rightarrow> None
           | Some st' \<Rightarrow> batchLoop d n (b + 1) (batches_of n) st')"
    using lt by (subst batchLoop.simps) (simp add: c_def)
  also have "\<dots> = (case unbatchedLoop d (nat c) st of None \<Rightarrow> None
           | Some st' \<Rightarrow> unbatchedLoop d m st')"
    by (simp add: innerLoop_unbatched ih split: option.splits)
  also have "\<dots> = unbatchedLoop d (nat c + m) st"
    by (simp only: unbatchedLoop_add)
  finally show ?case by (simp only: split)
qed

lemma generateSamples_unbatched:
  "generateSamples d n t = unbatchedLoop d (nat n) (initial_state t)"
  by (simp add: generateSamples_def batchLoop_unbatched)

lemma sampleBody_samples:
  "sampleBody d st = Some st' \<Longrightarrow> length (samples st') = Suc (length (samples st))"
  by (auto simp: sampleBody_def Let_def split: option.splits)

lemma unbatchedLoop_length:
  "unbatchedLoop d n st = Some st' \<Longrightarrow> length (samples st') = length (samples st) + n"
  by (induction n arbitrary: st) (auto split: option.splits dest: sampleBody_samples)

lemma currentBatchSize_eq:
  assumes "b < batches_of n"
  shows "min batchSize (n - b * batchSize) = (if b < n div 100 then 100 else n mod 100)"
proof -
  define q where "q = n div 100"
  define r where "r = n mod 100"
  have n: "n = 100 * q + r" and r: "0 \<le> r" "r < 100"
    by (simp_all add: q_def r_def)
  have pos: "b * 100 < n"
    using assms by (simp add: batch_lt_batches)
  show ?thesis
    unfolding batchSize_def min_def q_def [symmetric] r_def [symmetric]
    using n r pos by auto
qed

text \<open>
  Claim C9. For every sample count \<open>n\<close> the batched loop of the code computes what a
  single loop over \<open>n\<close> draws computes, on every tape: the same final state (samples,
  running sums, rest of the tape) or no result on the same tapes, and therefore the
  same record of statistics. A run that returns holds exactly \<open>n\<close> samples; it
  returns whenever the tape holds \<open>4 * d * n\<close> nonzero draws. Every batch has 100
  samples except a last one of \<open>n mod 100\<close>.
\<close>

theorem batching_is_transparent:
  "generateSamples d n t = unbatchedLoop d (nat n) (initial_state t)
   \<and> (\<forall>st. generateSamples d n t = Some st \<longrightarrow> length (samples st) = nat n)
   \<and> processDimension d n t =
       (case unbatchedLoop d (nat n) (initial_state t) of
          None \<Rightarrow> None
        | Some st \<Rightarrow> Some (calculateStatistics d n st, samples st, random_tape st))
   \<and> ((\<forall>r\<in>set t. r \<noteq> 0) \<and> 4 * d * nat n \<le> length t \<longrightarrow>
        (\<exists>st. generateSamples d n t = Some st))
   \<and> (\<forall>b. b < batches_of n \<longrightarrow>
        min batchSize (n - b * batchSize) = (if b < n div 100 then 100 else n mod 100))"
proof -
  have eq: "generateSamples d n t = unbatchedLoop d (nat n) (initial_state t)"
    by (rule generateSamples_unbatched)
  have len: "\<forall>st. generateSamples d n t = Some st \<longrightarrow> length (samples st) = nat n"
    using unbatchedLoop_length [of d "nat n" "initial_state t"]
    by (simp add: eq initial_state_def)
  have stats: "processDimension d n t =
       (case unbatchedLoop d (nat n) (initial_state t) of
          None \<Rightarrow> None
        | Some st \<Rightarrow> Some (calculateStatistics d n st, samples st, random_tape st))"
    by (simp add: processDimension_def eq)
  have total: "(\<forall>r\<in>set t. r \<noteq> 0) \<and> 4 * d * nat n \<le> length t \<longrightarrow>
        (\<exists>st. generateSamples d n t = Some st)"
    using unbatchedLoop_total [of "initial_state t" d "nat n"]
    by (simp add: eq initial_state_def)
  have sizes: "\<forall>b. b < batches_of n \<longrightarrow>
        min batchSize (n - b * batchSize) = (if b < n div 100 then 100 else n mod 100)"
    using currentBatchSize_eq by blast
  show ?thesis
    using eq len stats total sizes by blast
qed

theorem batching_is_transparent_witness:
  "(\<exists>st. generateSamples 1 250 (replicate 1000 (1 / 2)) = Some st \<and> length (samples st) = 250)
   \<and> generateSamples 1 250 (replicate 1000 (1 / 2))
       = unbatchedLoop 1 250 (initial_state (replicate 1000 (1 / 2)))
   \<and> batches_of 250 = 3
   \<and> min batchSize (250 - 2 * batchSize) = 50"
proof -
  note inst = batching_is_transparent [of 1 250 "replicate 1000 (1 / 2)"]
  have nz: "\<forall>r\<in>set (replicate 1000 (1 / 2 :: real)). r \<noteq> 0" by simp
  have len: "4 * 1 * nat 250 \<le> length (replicate 1000 (1 / 2 :: real))" by simp
  have b3: "batches_of 250 = 3" by (simp add: batches_of_def batchSize_def)
  obtain st where st: "generateSamples 1 250 (replicate 1000 (1 / 2)) = Some st"
    using inst nz len by blast
  then have "length (samples st) = 250" using inst by simp
  moreover have "min batchSize (250 - 2 * batchSize) = 50"
    using inst b3 by (simp add: batchSize_def)
  moreover have "generateSamples 1 250 (replicate 1000 (1 / 2))
       = unbatchedLoop 1 250 (initial_state (replicate 1000 (1 / 2)))"
    using inst by simp
  ultimately show ?thesis using st b3 by blast
qed

section \<open>The statistics and the online accumulator\<close>

lemma welford_of_snoc: "welford_of (vs @ [v]) = welford_update (welford_of vs) v"
  by (simp add: welford_of_def)

lemma welford_invariant:
  "w_count (welford_of vs) = length vs
   \<and> real (length vs) * w_mean (welford_of vs) = sum_list vs
   \<and> real (length vs) * w_M2 (welford_of vs)
       = real (length vs) * (\<Sum>v\<leftarrow>vs. v * v) - sum_list vs * sum_list vs
   \<and> 0 \<le> w_M2 (welford_of vs)
   \<and> (vs = [] \<longrightarrow> w_M2 (welford_of vs) = 0)"
proof (induction vs rule: rev_induct)
  case Nil
  then show ?case by (simp add: welford_of_def welford_init_def)
next
  case (snoc v vs)
  define w where "w = welford_of vs"
  define n where "n = real (length vs)"
  define S where "S = sum_list vs"
  define Q where "Q = (\<Sum>v\<leftarrow>vs. v * v)"
  define mu where "mu = w_mean w"
  define M where "M = w_M2 w"
  have ih: "w_count w = length vs" "n * mu = S" "n * M = n * Q - S * S" "0 \<le> M"
      "vs = [] \<longrightarrow> M = 0"
    using snoc by (simp_all add: w_def n_def S_def Q_def mu_def M_def)
  have n0: "0 \<le> n" by (simp add: n_def)
  define mu' where "mu' = mu + (v - mu) / (n + 1)"
  define M' where "M' = M + (v - mu) * (v - mu')"
  have upd: "w_count (welford_update w v) = Suc (length vs)"
      "w_mean (welford_update w v) = mu'" "w_M2 (welford_update w v) = M'"
    by (simp_all add: welford_update_def Let_def ih(1) mu'_def M'_def mu_def M_def n_def add.commute)
  have mean: "(n + 1) * mu' = S + v"
    using n0 ih(2) by (simp add: mu'_def field_simps)
  have diff: "v - mu' = (v - mu) * (n / (n + 1))"
    using n0 by (simp add: mu'_def field_simps)
  have M'_eq: "M' = M + (v - mu) * (v - mu) * (n / (n + 1))"
    by (simp add: M'_def diff)
  have sq: "0 \<le> (v - mu) * (v - mu)" by simp
  have frac: "0 \<le> n / (n + 1)" using n0 by simp
  have nonneg: "0 \<le> M'"
    unfolding M'_eq using ih(4) mult_nonneg_nonneg [OF sq frac] by simp
  have m2: "(n + 1) * M' = (n + 1) * (Q + v * v) - (S + v) * (S + v)"
  proof (cases "vs = []")
    case True
    then show ?thesis using ih(5) by (simp add: M'_eq n_def S_def Q_def)
  next
    case False
    then have npos: "0 < n" by (simp add: n_def)
    have "(n + 1) * M' = (n + 1) * M + (v - mu) * (v - mu) * n"
      using npos by (simp add: M'_eq field_simps)
    also have "n * \<dots> = (n + 1) * (n * M) + (n * v - n * mu) * (n * v - n * mu)"
      by (simp add: algebra_simps)
    also have "\<dots> = (n + 1) * (n * Q - S * S) + (n * v - S) * (n * v - S)"
      by (simp only: ih(2) ih(3))
    also have "\<dots> = n * ((n + 1) * (Q + v * v) - (S + v) * (S + v))"
      by (simp add: algebra_simps)
    finally show ?thesis using npos by simp
  qed
  show ?case
    using upd mean m2 nonneg
    by (simp add: welford_of_snoc w_def [symmetric] n_def S_def Q_def algebra_simps)
qed

lemma runningSums_snoc: "runningSums (vals @ [v]) = updateSums (runningSums vals) v"
  by (simp add: runningSums_def)

lemma runningSums_Num:
  "runningSums (map Num vs) = (Num (sum_list vs), Num (\<Sum>v\<leftarrow>vs. v * v))"
  by (induction vs rule: rev_induct) (simp_all add: runningSums_def updateSums_def)

lemma sampleBody_sums:
  assumes "sampleBody d st = Some st'"
    and "sumDistances st = fst (runningSums (map originalDistance (samples st)))"
    and "sumSquaredDistances st = snd (runningSums (map originalDistance (samples st)))"
  shows "sumDistances st' = fst (runningSums (map originalDistance (samples st')))
       \<and> sumSquaredDistances st' = snd (runningSums (map originalDistance (samples st')))"
  using assms
  by (auto simp: sampleBody_def Let_def runningSums_snoc updateSums_def split: option.splits)

lemma unbatchedLoop_sums:
  "unbatchedLoop d k st = Some st' \<Longrightarrow>
   sumDistances st = fst (runningSums (map originalDistance (samples st))) \<Longrightarrow>
   sumSquaredDistances st = snd (runningSums (map originalDistance (samples st))) \<Longrightarrow>
   sumDistances st' = fst (runningSums (map originalDistance (samples st')))
   \<and> sumSquaredDistances st' = snd (runningSums (map originalDistance (samples st')))"
proof (induction k arbitrary: st)
  case 0
  then show ?case by simp
next
  case (Suc k)
  then obtain st1 where s1: "sampleBody d st = Some st1" and s2: "unbatchedLoop d k st1 = Some st'"
    by (auto split: option.splits)
  have inv: "sumDistances st1 = fst (runningSums (map originalDistance (samples st1)))"
      "sumSquaredDistances st1 = snd (runningSums (map originalDistance (samples st1)))"
    using sampleBody_sums [OF s1 Suc.prems(2) Suc.prems(3)] by simp_all
  show ?case
    by (rule Suc.IH [OF s2 inv])
qed

lemma foldl_add_Num:
  "foldl (\<lambda>sum val. js_add sum val) (Num a) (map Num vs) = Num (a + sum_list vs)"
  by (induction vs arbitrary: a) simp_all

lemma foldl_dev_Num:
  "foldl (\<lambda>sum val. js_add sum (js_pow2 (js_sub val (Num mu)))) (Num a) (map Num vs)
     = Num (a + (\<Sum>v\<leftarrow>vs. (v - mu) * (v - mu)))"
  by (induction vs arbitrary: a) (simp_all add: js_pow2_def)

lemma sum_sq_dev:
  "(\<Sum>v\<leftarrow>vs. (v - mu) * (v - mu)) =
     (\<Sum>v\<leftarrow>vs. v * v) - 2 * mu * sum_list vs + real (length vs) * mu * (mu::real)"
  by (induction vs) (simp_all add: algebra_simps)

lemma welford_mean:
  assumes "vs \<noteq> []"
  shows "w_mean (welford_of vs) = sum_list vs / real (length vs)"
    and "w_M2 (welford_of vs) / real (length vs)
           = (\<Sum>v\<leftarrow>vs. v * v) / real (length vs)
             - (sum_list vs / real (length vs)) * (sum_list vs / real (length vs))"
    and "w_M2 (welford_of vs) = (\<Sum>v\<leftarrow>vs. (v - w_mean (welford_of vs)) * (v - w_mean (welford_of vs)))"
proof -
  define n where "n = real (length vs)"
  have npos: "0 < n" using assms by (simp add: n_def)
  have inv: "n * w_mean (welford_of vs) = sum_list vs"
      "n * w_M2 (welford_of vs) = n * (\<Sum>v\<leftarrow>vs. v * v) - sum_list vs * sum_list vs"
    using welford_invariant [of vs] by (simp_all add: n_def)
  show m: "w_mean (welford_of vs) = sum_list vs / real (length vs)"
    using inv(1) npos by (simp add: n_def [symmetric] field_simps)
  have M: "w_M2 (welford_of vs) = (\<Sum>v\<leftarrow>vs. v * v) - sum_list vs * sum_list vs / n"
    using inv(2) npos by (simp add: field_simps)
  show "w_M2 (welford_of vs) / real (length vs)
           = (\<Sum>v\<leftarrow>vs. v * v) / real (length vs)
             - (sum_list vs / real (length vs)) * (sum_list vs / real (length vs))"
    using npos by (simp add: M n_def [symmetric] field_simps)
  define mu where "mu = w_mean (welford_of vs)"
  have mu: "mu = sum_list vs / n" by (simp add: mu_def m n_def)
  have "(\<Sum>v\<leftarrow>vs. (v - mu) * (v - mu))
          = (\<Sum>v\<leftarrow>vs. v * v) - 2 * mu * sum_list vs + n * mu * mu"
    unfolding n_def by (rule sum_sq_dev)
  also have "\<dots> = (\<Sum>v\<leftarrow>vs. v * v) - sum_list vs * sum_list vs / n"
    using npos by (simp add: mu field_simps)
  finally show "w_M2 (welford_of vs)
      = (\<Sum>v\<leftarrow>vs. (v - w_mean (welford_of vs)) * (v - w_mean (welford_of vs)))"
    by (simp add: M mu_def)
qed

lemma welford_count: "w_count (welford_of vs) = length vs"
  using welford_invariant [of vs] by simp

lemma original_statistics_welford:
  assumes "vs \<noteq> []" and "n = int (length vs)"
  shows "mean_of_sum (Num (sum_list vs)) n = Num (w_mean (welford_of vs))"
    and "js_sqrt (variance_of_sums (Num (sum_list vs)) (Num (\<Sum>v\<leftarrow>vs. v * v)) n)
           = Num (welford_std (welford_of vs))"
proof -
  have n0: "real_of_int n \<noteq> 0" "real_of_int n = real (length vs)"
    using assms by simp_all
  show m: "mean_of_sum (Num (sum_list vs)) n = Num (w_mean (welford_of vs))"
    using n0 by (simp add: mean_of_sum_def welford_mean(1) [OF assms(1)])
  have v: "variance_of_sums (Num (sum_list vs)) (Num (\<Sum>v\<leftarrow>vs. v * v)) n
             = Num (w_M2 (welford_of vs) / real (length vs))"
    using n0 by (simp add: variance_of_sums_def mean_of_sum_def welford_mean(2) [OF assms(1)])
  have "0 \<le> w_M2 (welford_of vs) / real (length vs)"
    using welford_invariant [of vs] by simp
  then show "js_sqrt (variance_of_sums (Num (sum_list vs)) (Num (\<Sum>v\<leftarrow>vs. v * v)) n)
           = Num (welford_std (welford_of vs))"
    by (simp add: v welford_std_def welford_count not_less)
qed

lemma normalized_statistics_welford:
  assumes "vs \<noteq> []"
  shows "normalizedMean_of (map Num vs) = Num (w_mean (welford_of vs))"
    and "normalizedStd_of (map Num vs) = Num (welford_std (welford_of vs))"
proof -
  have n0: "real (length vs) \<noteq> 0" using assms by simp
  show m: "normalizedMean_of (map Num vs) = Num (w_mean (welford_of vs))"
    using n0 by (simp add: normalizedMean_of_def foldl_add_Num welford_mean(1) [OF assms])
  have "0 \<le> w_M2 (welford_of vs) / real (length vs)"
    using welford_invariant [of vs] by simp
  then show "normalizedStd_of (map Num vs) = Num (welford_std (welford_of vs))"
    using n0
    by (simp add: normalizedStd_of_def m foldl_dev_Num welford_mean(3) [OF assms, symmetric]
          welford_std_def welford_count not_less)
qed

lemma example_run: "generateSamples 1 2 example_tape = Some example_state"
proof -
  have s2: "sampleBody (Suc 0) first_example_state = Some example_state"
    by (simp add: sampleBody_def first_example_state_def example_state_def unit_vector_minus
        distance_same clampDistance_Num normalizedDistance_of_Num Let_def)
  have "unbatchedLoop (Suc 0) (Suc (Suc 0)) (initial_state example_tape) = Some example_state"
    by (simp add: first_example_sample s2)
  then show ?thesis
    by (simp add: generateSamples_unbatched numeral_2_eq_2)
qed

lemma unbatchedLoop_from_initial:
  assumes "unbatchedLoop d k (initial_state t) = Some st"
  shows "sumDistances st = fst (runningSums (map originalDistance (samples st)))
       \<and> sumSquaredDistances st = snd (runningSums (map originalDistance (samples st)))
       \<and> length (samples st) = k"
proof -
  have "sumDistances (initial_state t)
          = fst (runningSums (map originalDistance (samples (initial_state t))))"
       "sumSquaredDistances (initial_state t)
          = snd (runningSums (map originalDistance (samples (initial_state t))))"
    by (simp_all add: initial_state_def runningSums_def)
  then show ?thesis
    using unbatchedLoop_sums [OF assms] unbatchedLoop_length [OF assms]
    by (simp add: initial_state_def)
qed

text \<open>
  Claim C2, as stated, fails: the code keeps no running mean and no sum of squared
  deviations. After the two samples of the example run, with the distances 2 and 0,
  its two accumulators hold the sum 2 and the sum of squares 4, where the Welford
  accumulator holds the mean 1 and the sum of squared deviations 2.
\<close>

theorem running_sums_are_not_welford_counterexample:
  "generateSamples 1 2 example_tape = Some example_state
   \<and> map originalDistance (samples example_state) = [Num 2, Num 0]
   \<and> sumDistances example_state = Num 2
   \<and> sumSquaredDistances example_state = Num 4
   \<and> welford_of [2, 0] = \<lparr>w_count = 2, w_mean = 1, w_M2 = 2\<rparr>
   \<and> sumDistances example_state \<noteq> Num (w_mean (welford_of [2, 0]))
   \<and> sumSquaredDistances example_state \<noteq> Num (w_M2 (welford_of [2, 0]))"
proof -
  have w: "welford_of [2, 0] = \<lparr>w_count = 2, w_mean = 1, w_M2 = 2\<rparr>"
    by (simp add: welford_of_def welford_update_def welford_init_def Let_def)
  have st: "map originalDistance (samples example_state) = [Num 2, Num 0]"
      "sumDistances example_state = Num 2"
      "sumSquaredDistances example_state = Num 4"
    by (simp_all add: example_state_def)
  have ne: "sumDistances example_state \<noteq> Num (w_mean (welford_of [2, 0]))"
      "sumSquaredDistances example_state \<noteq> Num (w_M2 (welford_of [2, 0]))"
    by (simp_all add: st w)
  show ?thesis
    using example_run w st ne by blast
qed

text \<open>
  Claim C2, amended. The code accumulates the plain sum and sum of squares of the
  original distances and computes the statistics of the normalized distances in two
  passes over the stored samples. For a run of \<open>n > 0\<close> samples with finite values,
  the two means and the two population standard deviations of its record equal, in
  exact arithmetic, the mean and \<open>sqrt (M2 / n)\<close> of the Welford accumulator over the
  same values.
\<close>

theorem statistics_equal_welford:
  assumes "generateSamples d n t = Some st"
    and "0 < n"
    and "map originalDistance (samples st) = map Num os"
    and "map normalizedDistance (samples st) = map Num ns"
  shows "sumDistances st = Num (sum_list os)
       \<and> sumSquaredDistances st = Num (\<Sum>v\<leftarrow>os. v * v)
       \<and> originalMean (calculateStatistics d n st) = Num (w_mean (welford_of os))
       \<and> originalStd (calculateStatistics d n st) = Num (welford_std (welford_of os))
       \<and> normalizedMean (calculateStatistics d n st) = Num (w_mean (welford_of ns))
       \<and> normalizedStd (calculateStatistics d n st) = Num (welford_std (welford_of ns))"
proof -
  have loop: "unbatchedLoop d (nat n) (initial_state t) = Some st"
    using assms(1) by (simp add: generateSamples_unbatched)
  have inv: "sumDistances st = fst (runningSums (map originalDistance (samples st)))"
      "sumSquaredDistances st = snd (runningSums (map originalDistance (samples st)))"
      "length (samples st) = nat n"
    using unbatchedLoop_from_initial [OF loop] by simp_all
  have len_os: "length os = nat n"
    using inv(3) arg_cong [OF assms(3), of length] by simp
  have len_ns: "length ns = nat n"
    using inv(3) arg_cong [OF assms(4), of length] by simp
  have os: "os \<noteq> []" "n = int (length os)" and ns: "ns \<noteq> []"
    using len_os len_ns assms(2) by auto
  have sums: "sumDistances st = Num (sum_list os)"
      "sumSquaredDistances st = Num (\<Sum>v\<leftarrow>os. v * v)"
    using inv(1,2) by (simp_all add: assms(3) runningSums_Num)
  have "originalMean (calculateStatistics d n st) = Num (w_mean (welford_of os))"
    using original_statistics_welford(1) [OF os]
    by (simp add: calculateStatistics_def Let_def sums)
  moreover have "originalStd (calculateStatistics d n st) = Num (welford_std (welford_of os))"
    using original_statistics_welford(2) [OF os]
    by (simp add: calculateStatistics_def Let_def sums)
  moreover have "normalizedMean (calculateStatistics d n st) = Num (w_mean (welford_of ns))"
    using normalized_statistics_welford(1) [OF ns]
    by (simp add: calculateStatistics_def Let_def assms(4))
  moreover have "normalizedStd (calculateStatistics d n st) = Num (welford_std (welford_of ns))"
    using normalized_statistics_welford(2) [OF ns]
    by (simp add: calculateStatistics_def Let_def assms(4))
  ultimately show ?thesis using sums by simp
qed

theorem statistics_equal_welford_witness:
  "generateSamples 1 2 example_tape = Some example_state
   \<and> map originalDistance (samples example_state) = map Num [2, 0]
   \<and> map normalizedDistance (samples example_state) = map Num [5 / 2, - (1 / 2)]
   \<and> originalMean (calculateStatistics 1 2 example_state) = Num 1
   \<and> originalStd (calculateStatistics 1 2 example_state) = Num 1
   \<and> normalizedMean (calculateStatistics 1 2 example_state) = Num 1
   \<and> normalizedStd (calculateStatistics 1 2 example_state) = Num (3 / 2)"
proof -
  have h2: "(0::int) < 2" by simp
  have h3: "map originalDistance (samples example_state) = map Num [2, 0]"
    and h4: "map normalizedDistance (samples example_state) = map Num [5 / 2, - (1 / 2)]"
    by (simp_all add: example_state_def)
  have w1: "welford_of [2, 0] = \<lparr>w_count = 2, w_mean = 1, w_M2 = 2\<rparr>"
    by (simp add: welford_of_def welford_update_def welford_init_def Let_def)
  have w2: "welford_of [5 / 2, - (1 / 2)] = \<lparr>w_count = 2, w_mean = 1, w_M2 = 9 / 2\<rparr>"
    by (simp add: welford_of_def welford_update_def welford_init_def Let_def)
  have s: "sqrt (9 / 4) = 3 / 2"
    by (rule real_sqrt_unique) (simp_all add: power2_eq_square)
  have v1: "w_mean (welford_of [2, 0]) = 1" "welford_std (welford_of [2, 0]) = 1"
    by (simp_all add: w1 welford_std_def)
  have v2: "w_mean (welford_of [5 / 2, - (1 / 2)]) = 1"
      "welford_std (welford_of [5 / 2, - (1 / 2)]) = 3 / 2"
    by (simp_all add: w2 welford_std_def s)
  show ?thesis
    using statistics_equal_welford [OF example_run h2 h3 h4] h3 h4 example_run
    unfolding v1 v2 by blast
qed

section \<open>The sample sizes of the code\<close>

text \<open>
  Every sample size of the code is at least 10000: no dimension gets a count that
  is zero or negative.
\<close>

lemma getAdjustedSampleSize_positive: "10000 \<le> getAdjustedSampleSize d"
  by (simp add: getAdjustedSampleSize_def)

section \<open>The histogram counts by the rounded bin index\<close>

lemma binIndex_in_range:
  assumes "js_ge (binIndex_of lo bs v) (Num 0)" and "js_lt (binIndex_of lo bs v) (Num (real k))"
  shows "\<exists>i<k. binIndex_of lo bs v = Num (real i)"
proof (cases "double_div (double_sub v (Num lo)) bs")
  case (Num q)
  then have idx: "binIndex_of lo bs v = Num (of_int \<lfloor>q\<rfloor>)"
    by (simp add: binIndex_of_def)
  have "(0::real) \<le> of_int \<lfloor>q\<rfloor>" "real_of_int \<lfloor>q\<rfloor> < real k"
    using assms unfolding idx by (simp_all add: js_ge_def not_less)
  then have r: "0 \<le> \<lfloor>q\<rfloor>" "\<lfloor>q\<rfloor> < int k" by linarith+
  then have "nat \<lfloor>q\<rfloor> < k" using nat_less_iff by blast
  moreover have "real_of_int \<lfloor>q\<rfloor> = real (nat \<lfloor>q\<rfloor>)" using r(1) by simp
  ultimately show ?thesis using idx by metis
next
  case PosInf
  then show ?thesis using assms by (simp add: binIndex_of_def)
next
  case NegInf
  then show ?thesis using assms by (simp add: binIndex_of_def js_ge_def)
next
  case NaN
  then show ?thesis using assms by (simp add: binIndex_of_def)
qed

lemma countValue_inside:
  assumes "binIndex_of lo bs v = Num (real i)" and "i < k"
  shows "countValue lo bs k bins v = bins[i := bins ! i + 1]"
  using assms by (simp add: countValue_def Let_def js_ge_def)

lemma countValue_outside:
  assumes "\<not> (js_ge (binIndex_of lo bs v) (Num 0) \<and> js_lt (binIndex_of lo bs v) (Num (real k)))"
  shows "countValue lo bs k bins v = bins"
  using assms by (auto simp: countValue_def Let_def)

lemma countValue_length: "length (countValue lo bs k bins v) = length bins"
  by (simp add: countValue_def Let_def split: number.splits)

lemma foldl_countValue_length:
  "length (foldl (countValue lo bs k) bins vals) = length bins"
  by (induction vals arbitrary: bins) (simp_all add: countValue_length)

lemma foldl_countValue_nth:
  "length bins = k \<Longrightarrow> i < k \<Longrightarrow>
   foldl (countValue lo bs k) bins vals ! i
     = bins ! i + length (filter (\<lambda>v. binIndex_of lo bs v = Num (real i)) vals)"
proof (induction vals arbitrary: bins)
  case Nil
  then show ?case by simp
next
  case (Cons v vals)
  show ?case
  proof (cases "js_ge (binIndex_of lo bs v) (Num 0) \<and> js_lt (binIndex_of lo bs v) (Num (real k))")
    case True
    then obtain j where j: "j < k" "binIndex_of lo bs v = Num (real j)"
      using binIndex_in_range by blast
    have step: "countValue lo bs k bins v = bins[j := bins ! j + 1]"
      using j by (simp add: countValue_inside)
    have "foldl (countValue lo bs k) (bins[j := bins ! j + 1]) vals ! i
       = (bins[j := bins ! j + 1]) ! i
         + length (filter (\<lambda>v. binIndex_of lo bs v = Num (real i)) vals)"
      using Cons.prems by (intro Cons.IH) simp_all
    then show ?thesis
      using j Cons.prems by (simp add: step nth_list_update)
  next
    case False
    then have step: "countValue lo bs k bins v = bins"
      by (rule countValue_outside)
    have "binIndex_of lo bs v \<noteq> Num (real i)"
    proof
      assume "binIndex_of lo bs v = Num (real i)"
      then show False using False Cons.prems(2) by (simp add: js_ge_def)
    qed
    then show ?thesis
      using Cons.IH [OF Cons.prems] by (simp add: step)
  qed
qed

lemma foldl_countValue_sum:
  "length bins = k \<Longrightarrow>
   sum_list (foldl (countValue lo bs k) bins vals)
     = sum_list bins
       + length (filter (\<lambda>v. js_ge (binIndex_of lo bs v) (Num 0)
                              \<and> js_lt (binIndex_of lo bs v) (Num (real k))) vals)"
proof (induction vals arbitrary: bins)
  case Nil
  then show ?case by simp
next
  case (Cons v vals)
  show ?case
  proof (cases "js_ge (binIndex_of lo bs v) (Num 0) \<and> js_lt (binIndex_of lo bs v) (Num (real k))")
    case True
    then obtain j where j: "j < k" "binIndex_of lo bs v = Num (real j)"
      using binIndex_in_range by blast
    have step: "countValue lo bs k bins v = bins[j := bins ! j + 1]"
      using j by (simp add: countValue_inside)
    have "sum_list (bins[j := bins ! j + 1]) = sum_list bins + 1"
      using j Cons.prems by (simp add: sum_list_update)
    moreover have "sum_list (foldl (countValue lo bs k) (bins[j := bins ! j + 1]) vals)
       = sum_list (bins[j := bins ! j + 1])
         + length (filter (\<lambda>v. js_ge (binIndex_of lo bs v) (Num 0)
                                \<and> js_lt (binIndex_of lo bs v) (Num (real k))) vals)"
      using Cons.prems by (intro Cons.IH) simp
    ultimately show ?thesis using True by (simp add: step)
  next
    case False
    then have step: "countValue lo bs k bins v = bins"
      by (rule countValue_outside)
    show ?thesis
      using False Cons.IH [OF Cons.prems] by (simp add: step)
  qed
qed

lemma countValues_length: "length (countValues lo bs k vals) = k"
  by (simp add: countValues_def foldl_countValue_length)

lemma countValues_nth:
  "i < k \<Longrightarrow> countValues lo bs k vals ! i
     = length (filter (\<lambda>v. binIndex_of lo bs v = Num (real i)) vals)"
  by (simp add: countValues_def foldl_countValue_nth)

lemma countValues_sum:
  "sum_list (countValues lo bs k vals)
     = length (filter (\<lambda>v. js_ge (binIndex_of lo bs v) (Num 0)
                            \<and> js_lt (binIndex_of lo bs v) (Num (real k))) vals)"
  by (simp add: countValues_def foldl_countValue_sum)

lemma histogramOf_unfold:
  "histogramOf vals lo hi k =
     map (densityBin lo (binSize_of lo hi k) (length vals)
            (countValues lo (binSize_of lo hi k) k vals)) [0..<k]"
  by (simp add: histogramOf_def Let_def countValues_length)

lemma histogramOf_length: "length (histogramOf vals lo hi k) = k"
  by (simp add: histogramOf_unfold)

lemma histogramOf_density:
  "i < k \<Longrightarrow> bin_count (histogramOf vals lo hi k ! i)
     = double_div
         (double_div (Num (real (countValues lo (binSize_of lo hi k) k vals ! i)))
            (Num (real (length vals))))
         (binSize_of lo hi k)"
  by (simp add: histogramOf_unfold densityBin_def)

lemma density_error:
  assumes n: "0 < n" "n \<le> 2 ^ 53" and c: "c \<le> n"
    and w: "1 / 2 ^ 500 \<le> w" "w \<le> 2 ^ 500"
  shows "double_div (double_div (Num (real c)) (Num (real n))) (Num w)
           = Num (round_double (round_double (real c / real n) / w))
         \<and> \<bar>round_double (round_double (real c / real n) / w) * w - real c / real n\<bar>
             \<le> real c / real n * (3 / 2 ^ 53)"
proof (cases "c = 0")
  case True
  have "(0::real) < 1 / 2 ^ 500" by simp
  then have "w \<noteq> 0" using w(1) by linarith
  then show ?thesis
    using True n(1) by (simp add: double_div_def js_round_def round_double_def)
next
  case False
  define x where "x = real c / real n"
  define q where "q = round_double x"
  define y where "y = q / w"
  define D where "D = round_double y"
  have w0: "0 < w"
  proof -
    have "(0::real) < 1 / 2 ^ 500" by simp
    then show ?thesis using w(1) by linarith
  qed
  have rn: "real n \<le> 2 ^ 53"
    using n(2) by (metis of_nat_le_iff of_nat_numeral of_nat_power)
  have x1: "x \<le> 1" unfolding x_def using c n(1) by simp
  have "1 / 2 ^ 53 \<le> 1 / real n"
    using rn n(1) by (intro divide_left_mono) simp_all
  also have "\<dots> \<le> real c / real n"
    using False n(1) by (intro divide_right_mono) simp_all
  finally have x0: "1 / 2 ^ 53 \<le> x" unfolding x_def .
  then have xpos: "0 < x"
  proof -
    have "(0::real) < 1 / 2 ^ 53" by simp
    then show ?thesis using x0 by linarith
  qed
  have xa: "\<bar>x\<bar> \<le> 2 ^ 0" using x1 xpos by simp
  have q1: "js_round (Num x) = Num q" and q2: "\<bar>q\<bar> \<le> 1"
    unfolding q_def using js_round_Num [OF xa] by simp_all
  have "(2::real) powr (- 1021) \<le> 2 powr (- 53)" by (intro powr_mono) simp_all
  also have "\<dots> = 1 / 2 ^ 53" by (simp add: powr_minus_divide powr_realpow)
  finally have "2 powr (- 1021) \<le> \<bar>x\<bar>" using x0 xpos by simp
  then have "\<bar>q - x\<bar> \<le> \<bar>x\<bar> / 2 ^ 53"
    unfolding q_def by (rule round_double_relative)
  then have qe: "\<bar>q - x\<bar> \<le> x / 2 ^ 53" using xpos by simp
  have "x / 2 ^ 53 \<le> x / 2" using xpos by (intro divide_left_mono) simp_all
  then have qlo: "x / 2 \<le> q" using qe by linarith
  then have qpos: "0 < q" using xpos by linarith
  have ypos: "0 < y" unfolding y_def using qpos w0 by simp
  have "y \<le> 1 / w" unfolding y_def using q2 w0 by (intro divide_right_mono) simp_all
  also have "\<dots> \<le> 1 / (1 / 2 ^ 500)"
    using w(1) by (intro divide_left_mono) simp_all
  finally have yhi: "y \<le> 2 ^ 500" by simp
  then have ya: "\<bar>y\<bar> \<le> 2 ^ 500" using ypos by simp
  have d1: "js_round (Num y) = Num D"
    unfolding D_def using js_round_Num(1) [OF ya] by simp
  have "1 / 2 ^ 54 \<le> x / 2" using x0 by simp
  then have q54: "1 / 2 ^ 54 \<le> q" using qlo by linarith
  have "1 / 2 ^ 54 / 2 ^ 500 \<le> q / 2 ^ 500"
    using q54 by (intro divide_right_mono) simp_all
  also have "\<dots> \<le> q / w"
    using w(2) w0 qpos by (intro divide_left_mono) simp_all
  finally have ylo: "1 / 2 ^ 554 \<le> y" unfolding y_def by simp
  have "(2::real) powr (- 1021) \<le> 2 powr (- 554)" by (intro powr_mono) simp_all
  also have "\<dots> = 1 / 2 ^ 554" by (simp add: powr_minus_divide powr_realpow)
  finally have "2 powr (- 1021) \<le> \<bar>y\<bar>" using ylo ypos by simp
  then have "\<bar>D - y\<bar> \<le> \<bar>y\<bar> / 2 ^ 53"
    unfolding D_def by (rule round_double_relative)
  then have de: "\<bar>D - y\<bar> \<le> y / 2 ^ 53" using ypos by simp
  have yw: "y * w = q" unfolding y_def using w0 by simp
  have "\<bar>D * w - q\<bar> = \<bar>D - y\<bar> * w"
  proof -
    have "D * w - q = (D - y) * w" using yw by (simp add: algebra_simps)
    then show ?thesis using w0 by (simp add: abs_mult)
  qed
  also have "\<dots> \<le> y / 2 ^ 53 * w"
    using de w0 by (intro mult_right_mono) simp_all
  also have "\<dots> = q / 2 ^ 53" using yw by simp
  finally have dq: "\<bar>D * w - q\<bar> \<le> q / 2 ^ 53" .
  have "q \<le> x + x / 2 ^ 53" using qe by linarith
  also have "\<dots> \<le> 2 * x" using xpos by simp
  finally have "q / 2 ^ 53 \<le> 2 * x / 2 ^ 53"
    by (intro divide_right_mono) simp_all
  then have "\<bar>D * w - q\<bar> \<le> 2 * x / 2 ^ 53" using dq by linarith
  then have "\<bar>D * w - x\<bar> \<le> 2 * x / 2 ^ 53 + x / 2 ^ 53" using qe by linarith
  then have err: "\<bar>D * w - x\<bar> \<le> x * (3 / 2 ^ 53)" by simp
  have "double_div (double_div (Num (real c)) (Num (real n))) (Num w) = Num D"
    using n(1) w0 q1 d1 by (simp add: double_div_def x_def [symmetric] y_def [symmetric])
  then show ?thesis using err unfolding x_def D_def y_def q_def by blast
qed

lemma foldl_area_Num:
  "(\<And>i. i \<in> set xs \<Longrightarrow> bin_count (f i) = Num (g i)) \<Longrightarrow>
   foldl (\<lambda>acc b. js_add acc (js_mul (bin_count b) (Num w))) (Num a) (map f xs)
     = Num (a + (\<Sum>i\<leftarrow>xs. g i * w))"
  by (induction xs arbitrary: a) (simp_all add: algebra_simps)

lemma sum_list_error:
  fixes g h e :: "nat \<Rightarrow> real"
  shows "(\<And>i. i \<in> set xs \<Longrightarrow> \<bar>g i - h i\<bar> \<le> e i) \<Longrightarrow>
     \<bar>(\<Sum>i\<leftarrow>xs. g i) - (\<Sum>i\<leftarrow>xs. h i)\<bar> \<le> (\<Sum>i\<leftarrow>xs. e i)"
proof (induction xs)
  case Nil
  then show ?case by simp
next
  case (Cons x xs)
  have "\<bar>g x - h x\<bar> \<le> e x" using Cons.prems by simp
  moreover have "\<bar>(\<Sum>i\<leftarrow>xs. g i) - (\<Sum>i\<leftarrow>xs. h i)\<bar> \<le> (\<Sum>i\<leftarrow>xs. e i)"
    using Cons.prems by (intro Cons.IH) simp
  ultimately show ?case by simp
qed

lemma sum_list_nth_upt: "(\<Sum>i\<leftarrow>[0..<length bins]. real (bins ! i)) = real (sum_list bins)"
proof -
  have "(\<Sum>i\<leftarrow>[0..<length bins]. real (bins ! i)) = sum_list (map real (map ((!) bins) [0..<length bins]))"
    by (simp add: comp_def)
  also have "\<dots> = sum_list (map real bins)" by (simp only: map_nth)
  also have "\<dots> = real (sum_list bins)" by (induction bins) simp_all
  finally show ?thesis .
qed

lemma sum_list_le_nth:
  fixes bins :: "nat list"
  shows "i < length bins \<Longrightarrow> bins ! i \<le> sum_list bins"
  by (simp add: member_le_sum_list)

lemma sum_list_divide_const:
  fixes g :: "nat \<Rightarrow> real"
  shows "(\<Sum>i\<leftarrow>xs. g i / c) = (\<Sum>i\<leftarrow>xs. g i) / c"
  by (induction xs) (simp_all add: add_divide_distrib)

lemma histogramArea_near_one:
  assumes n: "vals \<noteq> []" "length vals \<le> 2 ^ 53"
    and size: "binSize_of lo hi k = Num w" and w: "1 / 2 ^ 500 \<le> w" "w \<le> 2 ^ 500"
    and counted: "\<forall>v\<in>set vals. js_ge (binIndex_of lo (Num w) v) (Num 0)
                    \<and> js_lt (binIndex_of lo (Num w) v) (Num (real k))"
  shows "\<exists>A. histogramArea (histogramOf vals lo hi k) (binSize_of lo hi k) = Num A
           \<and> \<bar>A - 1\<bar> \<le> 3 / 2 ^ 53"
proof -
  define bins where "bins = countValues lo (Num w) k vals"
  define D where "D i = round_double (round_double (real (bins ! i) / real (length vals)) / w)" for i
  have npos: "0 < length vals" using n(1) by simp
  have len: "length bins = k" unfolding bins_def by (rule countValues_length)
  have "filter (\<lambda>v. js_ge (binIndex_of lo (Num w) v) (Num 0)
                    \<and> js_lt (binIndex_of lo (Num w) v) (Num (real k))) vals = vals"
    using counted by (intro filter_True) blast
  then have total: "sum_list bins = length vals"
    unfolding bins_def by (simp add: countValues_sum)
  have each: "bins ! i \<le> length vals" if "i < k" for i
    using that len total sum_list_le_nth [of i bins] by simp
  have dens: "double_div (double_div (Num (real (bins ! i))) (Num (real (length vals)))) (Num w)
           = Num (D i)
         \<and> \<bar>D i * w - real (bins ! i) / real (length vals)\<bar>
             \<le> real (bins ! i) / real (length vals) * (3 / 2 ^ 53)" if "i < k" for i
    unfolding D_def using density_error [OF npos n(2) each [OF that] w] .
  have hist: "histogramOf vals lo hi k = map (densityBin lo (Num w) (length vals) bins) [0..<k]"
    by (simp add: histogramOf_unfold size bins_def)
  have bc: "bin_count (densityBin lo (Num w) (length vals) bins i) = Num (D i)"
    if "i \<in> set [0..<k]" for i
    using that dens [of i] by (simp add: densityBin_def)
  have area: "histogramArea (histogramOf vals lo hi k) (binSize_of lo hi k)
      = Num (0 + (\<Sum>i\<leftarrow>[0..<k]. D i * w))"
    unfolding histogramArea_def hist size by (rule foldl_area_Num) (rule bc)
  have "\<bar>(\<Sum>i\<leftarrow>[0..<k]. D i * w) - (\<Sum>i\<leftarrow>[0..<k]. real (bins ! i) / real (length vals))\<bar>
      \<le> (\<Sum>i\<leftarrow>[0..<k]. real (bins ! i) / real (length vals) * (3 / 2 ^ 53))"
    by (rule sum_list_error) (use dens in simp)
  moreover have "(\<Sum>i\<leftarrow>[0..<k]. real (bins ! i) / real (length vals)) = 1"
    using sum_list_nth_upt [of bins] len total npos by (simp add: sum_list_divide_const)
  moreover have "(\<Sum>i\<leftarrow>[0..<k]. real (bins ! i) / real (length vals) * (3 / 2 ^ 53))
      = 3 / 2 ^ 53"
  proof -
    have "(\<Sum>i\<leftarrow>[0..<k]. real (bins ! i) / real (length vals) * (3 / 2 ^ 53))
        = (\<Sum>i\<leftarrow>[0..<k]. real (bins ! i) / real (length vals)) * (3 / 2 ^ 53)"
      by (rule sum_list_mult_const)
    also have "(\<Sum>i\<leftarrow>[0..<k]. real (bins ! i) / real (length vals)) = 1"
      using sum_list_nth_upt [of bins] len total npos by (simp add: sum_list_divide_const)
    finally show ?thesis by simp
  qed
  ultimately have "\<bar>(\<Sum>i\<leftarrow>[0..<k]. D i * w) - 1\<bar> \<le> 3 / 2 ^ 53" by simp
  then show ?thesis using area by simp
qed

text \<open>
  The bin widths of the two domains of the code, and the rounded offsets and
  quotients of the values of the examples below.
\<close>

lemma normalized_range: "double_sub (Num 4) (Num (- 2)) = Num 6"
proof -
  have "round_half_even ((4 - (- 2)) * 2 ^ 50) = 6755399441055744"
    by (rule rhe_between) simp_all
  then have "round_double (4 - (- 2)) = 6755399441055744 / 2 ^ 50"
    by (subst round_double_at_neg [of 50]) simp_all
  then have r: "round_double (4 - (- 2)) = 6"
    by simp
  show ?thesis
    by (rule double_sub_eval [OF r]) simp
qed

lemma normalized_binSize: "double_div (Num 6) (Num 40) = Num (5404319552844595 / 2 ^ 55)"
proof -
  have "round_half_even ((6 / 40) * 2 ^ 55) = 5404319552844595"
    by (rule rhe_between) simp_all
  then have "round_double (6 / 40) = 5404319552844595 / 2 ^ 55"
    by (subst round_double_at_neg [of 55]) simp_all
  then have r: "round_double (6 / 40) = (5404319552844595 / 2 ^ 55)"
    by simp
  show ?thesis
    by (rule double_div_eval [OF r]) simp_all
qed

lemma top_offset: "double_sub (Num (9007199254740991 / 2 ^ 51)) (Num (- 2)) = Num 6"
proof -
  have "round_half_even (((9007199254740991 / 2 ^ 51) - (- 2)) * 2 ^ 50) = 6755399441055744"
    using rhe_tie [of "((9007199254740991 / 2 ^ 51) - (- 2)) * 2 ^ 50" 6755399441055743] by simp
  then have "round_double ((9007199254740991 / 2 ^ 51) - (- 2)) = 6755399441055744 / 2 ^ 50"
    by (subst round_double_at_neg [of 50]) simp_all
  then have r: "round_double ((9007199254740991 / 2 ^ 51) - (- 2)) = 6"
    by simp
  show ?thesis
    by (rule double_sub_eval [OF r]) simp
qed

lemma top_quotient: "double_div (Num 6) (Num (5404319552844595 / 2 ^ 55)) = Num 40"
proof -
  have "round_half_even ((6 / (5404319552844595 / 2 ^ 55)) * 2 ^ 47) = 5629499534213120"
    by (rule rhe_between) simp_all
  then have "round_double (6 / (5404319552844595 / 2 ^ 55)) = 5629499534213120 / 2 ^ 47"
    by (subst round_double_at_neg [of 47]) simp_all
  then have r: "round_double (6 / (5404319552844595 / 2 ^ 55)) = 40"
    by simp
  show ?thesis
    by (rule double_div_eval [OF r]) simp_all
qed

lemma middle_offset: "double_sub (Num (4503599627370495 / 2 ^ 52)) (Num (- 2)) = Num 3"
proof -
  have "round_half_even (((4503599627370495 / 2 ^ 52) - (- 2)) * 2 ^ 51) = 6755399441055744"
    using rhe_tie [of "((4503599627370495 / 2 ^ 52) - (- 2)) * 2 ^ 51" 6755399441055743] by simp
  then have "round_double ((4503599627370495 / 2 ^ 52) - (- 2)) = 6755399441055744 / 2 ^ 51"
    by (subst round_double_at_neg [of 51]) simp_all
  then have r: "round_double ((4503599627370495 / 2 ^ 52) - (- 2)) = 3"
    by simp
  show ?thesis
    by (rule double_sub_eval [OF r]) simp
qed

lemma middle_quotient: "double_div (Num 3) (Num (5404319552844595 / 2 ^ 55)) = Num 20"
proof -
  have "round_half_even ((3 / (5404319552844595 / 2 ^ 55)) * 2 ^ 48) = 5629499534213120"
    by (rule rhe_between) simp_all
  then have "round_double (3 / (5404319552844595 / 2 ^ 55)) = 5629499534213120 / 2 ^ 48"
    by (subst round_double_at_neg [of 48]) simp_all
  then have r: "round_double (3 / (5404319552844595 / 2 ^ 55)) = 20"
    by simp
  show ?thesis
    by (rule double_div_eval [OF r]) simp_all
qed

lemma five_offset: "double_sub (Num 5) (Num (- 2)) = Num 7"
proof -
  have "round_half_even ((5 - (- 2)) * 2 ^ 50) = 7881299347898368"
    by (rule rhe_between) simp_all
  then have "round_double (5 - (- 2)) = 7881299347898368 / 2 ^ 50"
    by (subst round_double_at_neg [of 50]) simp_all
  then have r: "round_double (5 - (- 2)) = 7"
    by simp
  show ?thesis
    by (rule double_sub_eval [OF r]) simp
qed

lemma five_quotient: "double_div (Num 7) (Num (5404319552844595 / 2 ^ 55)) = Num (3283874728290987 / 2 ^ 46)"
proof -
  have "round_half_even ((7 / (5404319552844595 / 2 ^ 55)) * 2 ^ 47) = 6567749456581974"
    by (rule rhe_between) simp_all
  then have "round_double (7 / (5404319552844595 / 2 ^ 55)) = 6567749456581974 / 2 ^ 47"
    by (subst round_double_at_neg [of 47]) simp_all
  then have r: "round_double (7 / (5404319552844595 / 2 ^ 55)) = (3283874728290987 / 2 ^ 46)"
    by simp
  show ?thesis
    by (rule double_div_eval [OF r]) simp_all
qed

lemma original_range: "double_sub (Num 2) (Num 0) = Num 2"
proof -
  have "round_half_even ((2 - 0) * 2 ^ 51) = 4503599627370496"
    by (rule rhe_between) simp_all
  then have "round_double (2 - 0) = 4503599627370496 / 2 ^ 51"
    by (subst round_double_at_neg [of 51]) simp_all
  then have r: "round_double (2 - 0) = 2"
    by simp
  show ?thesis
    by (rule double_sub_eval [OF r]) simp
qed

lemma original_binSize: "double_div (Num 2) (Num 40) = Num (3602879701896397 / 2 ^ 56)"
proof -
  have "round_half_even ((2 / 40) * 2 ^ 57) = 7205759403792794"
    by (rule rhe_between) simp_all
  then have "round_double (2 / 40) = 7205759403792794 / 2 ^ 57"
    by (subst round_double_at_neg [of 57]) simp_all
  then have r: "round_double (2 / 40) = (3602879701896397 / 2 ^ 56)"
    by simp
  show ?thesis
    by (rule double_div_eval [OF r]) simp_all
qed

lemma half_offset: "double_sub (Num (1 / 2)) (Num 0) = Num (1 / 2)"
proof -
  have "round_half_even (((1 / 2) - 0) * 2 ^ 53) = 4503599627370496"
    by (rule rhe_between) simp_all
  then have "round_double ((1 / 2) - 0) = 4503599627370496 / 2 ^ 53"
    by (subst round_double_at_neg [of 53]) simp_all
  then have r: "round_double ((1 / 2) - 0) = (1 / 2)"
    by simp
  show ?thesis
    by (rule double_sub_eval [OF r]) simp
qed

lemma half_quotient: "double_div (Num (1 / 2)) (Num (3602879701896397 / 2 ^ 56)) = Num 10"
proof -
  have "round_half_even (((1 / 2) / (3602879701896397 / 2 ^ 56)) * 2 ^ 49) = 5629499534213120"
    by (rule rhe_between) simp_all
  then have "round_double ((1 / 2) / (3602879701896397 / 2 ^ 56)) = 5629499534213120 / 2 ^ 49"
    by (subst round_double_at_neg [of 49]) simp_all
  then have r: "round_double ((1 / 2) / (3602879701896397 / 2 ^ 56)) = 10"
    by simp
  show ?thesis
    by (rule double_div_eval [OF r]) simp_all
qed

lemma threehalves_offset: "double_sub (Num (3 / 2)) (Num 0) = Num (3 / 2)"
proof -
  have "round_half_even (((3 / 2) - 0) * 2 ^ 52) = 6755399441055744"
    by (rule rhe_between) simp_all
  then have "round_double ((3 / 2) - 0) = 6755399441055744 / 2 ^ 52"
    by (subst round_double_at_neg [of 52]) simp_all
  then have r: "round_double ((3 / 2) - 0) = (3 / 2)"
    by simp
  show ?thesis
    by (rule double_sub_eval [OF r]) simp
qed

lemma threehalves_quotient: "double_div (Num (3 / 2)) (Num (3602879701896397 / 2 ^ 56)) = Num 30"
proof -
  have "round_half_even (((3 / 2) / (3602879701896397 / 2 ^ 56)) * 2 ^ 48) = 8444249301319680"
    by (rule rhe_between) simp_all
  then have "round_double ((3 / 2) / (3602879701896397 / 2 ^ 56)) = 8444249301319680 / 2 ^ 48"
    by (subst round_double_at_neg [of 48]) simp_all
  then have r: "round_double ((3 / 2) / (3602879701896397 / 2 ^ 56)) = 30"
    by simp
  show ?thesis
    by (rule double_div_eval [OF r]) simp_all
qed

lemma two_offset: "double_sub (Num 2) (Num 0) = Num 2"
proof -
  have "round_half_even ((2 - 0) * 2 ^ 51) = 4503599627370496"
    by (rule rhe_between) simp_all
  then have "round_double (2 - 0) = 4503599627370496 / 2 ^ 51"
    by (subst round_double_at_neg [of 51]) simp_all
  then have r: "round_double (2 - 0) = 2"
    by simp
  show ?thesis
    by (rule double_sub_eval [OF r]) simp
qed

lemma two_quotient: "double_div (Num 2) (Num (3602879701896397 / 2 ^ 56)) = Num 40"
proof -
  have "round_half_even ((2 / (3602879701896397 / 2 ^ 56)) * 2 ^ 47) = 5629499534213120"
    by (rule rhe_between) simp_all
  then have "round_double (2 / (3602879701896397 / 2 ^ 56)) = 5629499534213120 / 2 ^ 47"
    by (subst round_double_at_neg [of 47]) simp_all
  then have r: "round_double (2 / (3602879701896397 / 2 ^ 56)) = 40"
    by simp
  show ?thesis
    by (rule double_div_eval [OF r]) simp_all
qed

lemma density_share: "double_div (Num 1) (Num 3) = Num (6004799503160661 / 2 ^ 54)"
proof -
  have "round_half_even ((1 / 3) * 2 ^ 54) = 6004799503160661"
    by (rule rhe_between) simp_all
  then have "round_double (1 / 3) = 6004799503160661 / 2 ^ 54"
    by (subst round_double_at_neg [of 54]) simp_all
  then have r: "round_double (1 / 3) = (6004799503160661 / 2 ^ 54)"
    by simp
  show ?thesis
    by (rule double_div_eval [OF r]) simp_all
qed

lemma density_value: "double_div (Num (6004799503160661 / 2 ^ 54)) (Num (3602879701896397 / 2 ^ 56)) = Num (3752999689475413 / 2 ^ 49)"
proof -
  have "round_half_even (((6004799503160661 / 2 ^ 54) / (3602879701896397 / 2 ^ 56)) * 2 ^ 50) = 7505999378950826"
    by (rule rhe_between) simp_all
  then have "round_double ((6004799503160661 / 2 ^ 54) / (3602879701896397 / 2 ^ 56)) = 7505999378950826 / 2 ^ 50"
    by (subst round_double_at_neg [of 50]) simp_all
  then have r: "round_double ((6004799503160661 / 2 ^ 54) / (3602879701896397 / 2 ^ 56)) = (3752999689475413 / 2 ^ 49)"
    by simp
  show ?thesis
    by (rule double_div_eval [OF r]) simp_all
qed

lemma normalized_binSize_value: "binSize_of (- 2) 4 40 = Num (5404319552844595 / 2 ^ 55)"
  by (simp only: binSize_of_def of_nat_numeral normalized_range normalized_binSize)

lemma original_binSize_value: "binSize_of 0 2 40 = Num (3602879701896397 / 2 ^ 56)"
  by (simp only: binSize_of_def of_nat_numeral original_range original_binSize)

lemma top_index:
  "binIndex_of (- 2) (Num (5404319552844595 / 2 ^ 55)) (Num (9007199254740991 / 2 ^ 51)) = Num 40"
  unfolding binIndex_of_def top_offset top_quotient by simp

lemma middle_index:
  "binIndex_of (- 2) (Num (5404319552844595 / 2 ^ 55)) (Num (4503599627370495 / 2 ^ 52)) = Num 20"
  unfolding binIndex_of_def middle_offset middle_quotient by simp

lemma five_index:
  "binIndex_of (- 2) (Num (5404319552844595 / 2 ^ 55)) (Num 5) = Num 46"
  unfolding binIndex_of_def five_offset five_quotient by simp

lemma half_index:
  "binIndex_of 0 (Num (3602879701896397 / 2 ^ 56)) (Num (1 / 2)) = Num 10"
  unfolding binIndex_of_def half_offset half_quotient by simp

lemma threehalves_index:
  "binIndex_of 0 (Num (3602879701896397 / 2 ^ 56)) (Num (3 / 2)) = Num 30"
  unfolding binIndex_of_def threehalves_offset threehalves_quotient by simp

lemma two_index:
  "binIndex_of 0 (Num (3602879701896397 / 2 ^ 56)) (Num 2) = Num 40"
  unfolding binIndex_of_def two_offset two_quotient by simp

lemma one_offset: "double_sub (Num 1) (Num 0) = Num 1"
proof -
  have "round_half_even ((1 - 0) * 2 ^ 52) = 4503599627370496"
    by (rule rhe_between) simp_all
  then have "round_double (1 - 0) = 4503599627370496 / 2 ^ 52"
    by (subst round_double_at_neg [of 52]) simp_all
  then have r: "round_double (1 - 0) = 1"
    by simp
  show ?thesis
    by (rule double_sub_eval [OF r]) simp
qed

lemma one_quotient: "double_div (Num 1) (Num (3602879701896397 / 2 ^ 56)) = Num 20"
proof -
  have "round_half_even ((1 / (3602879701896397 / 2 ^ 56)) * 2 ^ 48) = 5629499534213120"
    by (rule rhe_between) simp_all
  then have "round_double (1 / (3602879701896397 / 2 ^ 56)) = 5629499534213120 / 2 ^ 48"
    by (subst round_double_at_neg [of 48]) simp_all
  then have r: "round_double (1 / (3602879701896397 / 2 ^ 56)) = 20"
    by simp
  show ?thesis
    by (rule double_div_eval [OF r]) simp_all
qed

lemma full_share: "double_div (Num 10000) (Num 10000) = Num 1"
proof -
  have "round_half_even ((10000 / 10000) * 2 ^ 52) = 4503599627370496"
    by (rule rhe_between) simp_all
  then have "round_double (10000 / 10000) = 4503599627370496 / 2 ^ 52"
    by (subst round_double_at_neg [of 52]) simp_all
  then have r: "round_double (10000 / 10000) = 1"
    by simp
  show ?thesis
    by (rule double_div_eval [OF r]) simp_all
qed

lemma full_density: "double_div (Num 1) (Num (3602879701896397 / 2 ^ 56)) = Num 20"
proof -
  have "round_half_even ((1 / (3602879701896397 / 2 ^ 56)) * 2 ^ 48) = 5629499534213120"
    by (rule rhe_between) simp_all
  then have "round_double (1 / (3602879701896397 / 2 ^ 56)) = 5629499534213120 / 2 ^ 48"
    by (subst round_double_at_neg [of 48]) simp_all
  then have r: "round_double (1 / (3602879701896397 / 2 ^ 56)) = 20"
    by simp
  show ?thesis
    by (rule double_div_eval [OF r]) simp_all
qed

lemma empty_share: "double_div (Num 0) (Num 10000) = Num 0"
proof -
  have r: "round_double (0 / 10000) = 0"
    by (simp add: round_double_def)
  show ?thesis
    by (rule double_div_eval [OF r]) simp_all
qed

lemma empty_density: "double_div (Num 0) (Num (3602879701896397 / 2 ^ 56)) = Num 0"
proof -
  have r: "round_double (0 / (3602879701896397 / 2 ^ 56)) = 0"
    by (simp add: round_double_def)
  show ?thesis
    by (rule double_div_eval [OF r]) simp_all
qed

lemma one_index: "binIndex_of 0 (Num (3602879701896397 / 2 ^ 56)) (Num 1) = Num 20"
  unfolding binIndex_of_def one_offset one_quotient by simp

lemma single_bin_area:
  assumes size: "binSize_of lo hi k = Num w"
    and idx: "binIndex_of lo (Num w) v = Num (real j)" and j: "j < k"
    and full: "double_div (double_div (Num (real n)) (Num (real n))) (Num w) = Num D"
    and empty: "double_div (double_div (Num 0) (Num (real n))) (Num w) = Num 0"
  shows "histogramArea (histogramOf (replicate n v) lo hi k) (binSize_of lo hi k) = Num (D * w)"
proof -
  define bins where "bins = countValues lo (Num w) k (replicate n v)"
  have cnt: "bins ! i = (if i = j then n else 0)" if "i < k" for i
    unfolding bins_def using that by (simp add: countValues_nth idx)
  have hist: "histogramOf (replicate n v) lo hi k = map (densityBin lo (Num w) n bins) [0..<k]"
    by (simp add: histogramOf_unfold size bins_def)
  have bc: "bin_count (densityBin lo (Num w) n bins i) = Num (if i = j then D else 0)"
    if "i \<in> set [0..<k]" for i
    using that cnt [of i] full empty by (simp add: densityBin_def)
  have "histogramArea (histogramOf (replicate n v) lo hi k) (binSize_of lo hi k)
      = Num (0 + (\<Sum>i\<leftarrow>[0..<k]. (if i = j then D else 0) * w))"
    unfolding histogramArea_def hist size by (rule foldl_area_Num) (rule bc)
  also have "(\<Sum>i\<leftarrow>[0..<k]. (if i = j then D else 0) * w) = D * w"
    using j by (simp add: interv_sum_list_conv_sum_set_nat if_distrib [of "\<lambda>x. x * w"] cong: if_cong)
  finally show ?thesis by simp
qed

text \<open>
  Claim C7, as stated, fails in the arithmetic of the code. The bin width of the domain
  \<open>[-2, 4)\<close> with 40 bins is the double nearest to 0.15, and the bin index is the floor
  of a quotient that has been rounded twice. The normalized distance \<open>1 - 2 ^ (- 52)\<close>,
  which line 108 yields in dimension 4 for the distance \<open>1 - 2 ^ (- 53)\<close>, lies in the
  domain and is counted in bin 20, where \<open>floor ((value - domainMin) / binWidth)\<close> is
  19. The double \<open>4 - 2 ^ (- 51)\<close> lies in the domain, gets the index 40 and is
  dropped. And for 10000 samples of the distance 1, all inside \<open>[0, 2)\<close> and none
  dropped, the densities times the bin width sum to \<open>20 * binSize\<close>, which is not 1.
\<close>

theorem rounded_bin_index_counterexample:
  "normalizedDistance_double (Num (9007199254740991 / 2 ^ 53)) 4 = Num (4503599627370495 / 2 ^ 52)
   \<and> (- 2 :: real) \<le> 4503599627370495 / 2 ^ 52 \<and> (4503599627370495 / 2 ^ 52 :: real) < 4
   \<and> binIndex_of (- 2) (binSize_of (- 2) 4 40) (Num (4503599627370495 / 2 ^ 52)) = Num 20
   \<and> \<lfloor>(4503599627370495 / 2 ^ 52 - (- 2)) / ((4 - (- 2)) / 40 :: real)\<rfloor> = 19
   \<and> countValue (- 2) (binSize_of (- 2) 4 40) 40 (replicate 40 0) (Num (4503599627370495 / 2 ^ 52))
       = (replicate 40 0)[20 := 1]
   \<and> (- 2 :: real) \<le> 9007199254740991 / 2 ^ 51 \<and> (9007199254740991 / 2 ^ 51 :: real) < 4
   \<and> binIndex_of (- 2) (binSize_of (- 2) 4 40) (Num (9007199254740991 / 2 ^ 51)) = Num 40
   \<and> countValue (- 2) (binSize_of (- 2) 4 40) 40 (replicate 40 0) (Num (9007199254740991 / 2 ^ 51))
       = replicate 40 0
   \<and> (0::real) \<le> 1 \<and> (1::real) < 2
   \<and> binIndex_of 0 (binSize_of 0 2 40) (Num 1) = Num 20
   \<and> histogramArea (histogramOf (replicate 10000 (Num 1)) 0 2 40) (binSize_of 0 2 40)
       = Num (20 * (3602879701896397 / 2 ^ 56))
   \<and> 20 * (3602879701896397 / 2 ^ 56) \<noteq> (1::real)"
proof -
  have dom: "(- 2 :: real) \<le> 4503599627370495 / 2 ^ 52" "(4503599627370495 / 2 ^ 52 :: real) < 4"
      "(- 2 :: real) \<le> 9007199254740991 / 2 ^ 51" "(9007199254740991 / 2 ^ 51 :: real) < 4"
      "(0::real) \<le> 1" "(1::real) < 2" "20 * (3602879701896397 / 2 ^ 56) \<noteq> (1::real)"
    by simp_all
  have fl: "\<lfloor>(4503599627370495 / 2 ^ 52 - (- 2)) / ((4 - (- 2)) / 40 :: real)\<rfloor> = 19"
    by simp
  have m: "binIndex_of (- 2) (binSize_of (- 2) 4 40) (Num (4503599627370495 / 2 ^ 52)) = Num 20"
    by (simp only: normalized_binSize_value middle_index)
  have t: "binIndex_of (- 2) (binSize_of (- 2) 4 40) (Num (9007199254740991 / 2 ^ 51)) = Num 40"
    by (simp only: normalized_binSize_value top_index)
  have o: "binIndex_of 0 (binSize_of 0 2 40) (Num 1) = Num 20"
    by (simp only: original_binSize_value one_index)
  have "binIndex_of (- 2) (binSize_of (- 2) 4 40) (Num (4503599627370495 / 2 ^ 52)) = Num (real 20)"
    by (simp only: m of_nat_numeral)
  then have cm: "countValue (- 2) (binSize_of (- 2) 4 40) 40 (replicate 40 0) (Num (4503599627370495 / 2 ^ 52))
       = (replicate 40 0)[20 := 1]"
    by (subst countValue_inside [where i = 20]) simp_all
  have "\<not> (js_ge (binIndex_of (- 2) (binSize_of (- 2) 4 40) (Num (9007199254740991 / 2 ^ 51))) (Num 0)
           \<and> js_lt (binIndex_of (- 2) (binSize_of (- 2) 4 40) (Num (9007199254740991 / 2 ^ 51))) (Num (real 40)))"
    unfolding t by simp
  then have ct: "countValue (- 2) (binSize_of (- 2) 4 40) 40 (replicate 40 0) (Num (9007199254740991 / 2 ^ 51))
       = replicate 40 0"
    by (rule countValue_outside)
  have i1: "binIndex_of 0 (Num (3602879701896397 / 2 ^ 56)) (Num 1) = Num (real 20)"
    by (simp only: one_index of_nat_numeral)
  have full: "double_div (double_div (Num (real 10000)) (Num (real 10000))) (Num (3602879701896397 / 2 ^ 56)) = Num 20"
    by (simp only: of_nat_numeral full_share full_density)
  have empty: "double_div (double_div (Num 0) (Num (real 10000))) (Num (3602879701896397 / 2 ^ 56)) = Num 0"
    by (simp only: of_nat_numeral empty_share empty_density)
  have area: "histogramArea (histogramOf (replicate 10000 (Num 1)) 0 2 40) (binSize_of 0 2 40)
       = Num (20 * (3602879701896397 / 2 ^ 56))"
    by (rule single_bin_area [OF original_binSize_value i1 _ full empty]) simp
  show ?thesis
    using dom fl m t o cm ct area below_one_value by blast
qed

text \<open>
  Claim C7, amended. With the arithmetic of the code the bin width is
  \<open>binSize = (domainMax - domainMin) / binCount\<close> rounded, and the bin index of a value is
  the floor of the rounded quotient of the rounded \<open>value - domainMin\<close> by \<open>binSize\<close>.
  For every sample collection, domain and bin count: a value whose index passes the
  test \<open>0 \<le> index < binCount\<close> is counted in the bin of that index, and every other
  value is silently dropped (an index can differ from the floor of the exact
  quotient, so a value of the domain can be counted one bin higher or dropped); the
  histogram has \<open>binCount\<close> bins; the density of bin \<open>i\<close> is
  \<open>count[i] / totalSamples / binSize\<close> with both divisions rounded, where \<open>count[i]\<close> is
  the number of samples with index \<open>i\<close>; and the counts sum to the number of samples
  that are not dropped. Consequently, for at most \<open>2 ^ 53\<close> samples, at least one, none
  of which is dropped, and a bin width from \<open>2 ^ (- 500)\<close> to \<open>2 ^ 500\<close>, the sum over all
  bins of density times bin width differs from 1 by at most \<open>3 / 2 ^ 53\<close>.
\<close>

theorem histogram_counts_by_rounded_index:
  "binSize_of minv maxv binCount
     = double_div (double_sub (Num maxv) (Num minv)) (Num (real binCount))
   \<and> binIndex_of minv binSize val = js_floor (double_div (double_sub val (Num minv)) binSize)
   \<and> (js_ge (binIndex_of minv binSize val) (Num 0)
        \<and> js_lt (binIndex_of minv binSize val) (Num (real binCount)) \<longrightarrow>
        (\<exists>j<binCount. binIndex_of minv binSize val = Num (real j)
            \<and> countValue minv binSize binCount bins val = bins[j := bins ! j + 1]))
   \<and> (\<not> (js_ge (binIndex_of minv binSize val) (Num 0)
            \<and> js_lt (binIndex_of minv binSize val) (Num (real binCount))) \<longrightarrow>
        countValue minv binSize binCount bins val = bins)
   \<and> length (histogramOf vals minv maxv binCount) = binCount
   \<and> (i < binCount \<longrightarrow>
        bin_count (histogramOf vals minv maxv binCount ! i)
          = double_div
              (double_div
                 (Num (real (length (filter
                    (\<lambda>v. binIndex_of minv (binSize_of minv maxv binCount) v = Num (real i))
                    vals))))
                 (Num (real (length vals))))
              (binSize_of minv maxv binCount))
   \<and> sum_list (countValues minv (binSize_of minv maxv binCount) binCount vals)
       = length (filter
           (\<lambda>v. js_ge (binIndex_of minv (binSize_of minv maxv binCount) v) (Num 0)
                \<and> js_lt (binIndex_of minv (binSize_of minv maxv binCount) v)
                     (Num (real binCount))) vals)
   \<and> (vals \<noteq> [] \<and> length vals \<le> 2 ^ 53 \<and> binSize_of minv maxv binCount = Num w
        \<and> 1 / 2 ^ 500 \<le> w \<and> w \<le> 2 ^ 500
        \<and> (\<forall>v\<in>set vals. js_ge (binIndex_of minv (Num w) v) (Num 0)
                         \<and> js_lt (binIndex_of minv (Num w) v) (Num (real binCount))) \<longrightarrow>
        (\<exists>A. histogramArea (histogramOf vals minv maxv binCount)
                (binSize_of minv maxv binCount) = Num A
            \<and> \<bar>A - 1\<bar> \<le> 3 / 2 ^ 53))"
proof -
  have size: "binSize_of minv maxv binCount
     = double_div (double_sub (Num maxv) (Num minv)) (Num (real binCount))"
    by (rule binSize_of_def)
  have index: "binIndex_of minv binSize val
     = js_floor (double_div (double_sub val (Num minv)) binSize)"
    by (rule binIndex_of_def)
  have inside: "js_ge (binIndex_of minv binSize val) (Num 0)
        \<and> js_lt (binIndex_of minv binSize val) (Num (real binCount)) \<longrightarrow>
        (\<exists>j<binCount. binIndex_of minv binSize val = Num (real j)
            \<and> countValue minv binSize binCount bins val = bins[j := bins ! j + 1])"
  proof
    assume "js_ge (binIndex_of minv binSize val) (Num 0)
        \<and> js_lt (binIndex_of minv binSize val) (Num (real binCount))"
    then obtain j where j: "j < binCount" "binIndex_of minv binSize val = Num (real j)"
      using binIndex_in_range by blast
    then have "countValue minv binSize binCount bins val = bins[j := bins ! j + 1]"
      by (simp add: countValue_inside)
    then show "\<exists>j<binCount. binIndex_of minv binSize val = Num (real j)
            \<and> countValue minv binSize binCount bins val = bins[j := bins ! j + 1]"
      using j by blast
  qed
  have outside: "\<not> (js_ge (binIndex_of minv binSize val) (Num 0)
            \<and> js_lt (binIndex_of minv binSize val) (Num (real binCount))) \<longrightarrow>
        countValue minv binSize binCount bins val = bins"
    using countValue_outside by blast
  have len: "length (histogramOf vals minv maxv binCount) = binCount"
    by (rule histogramOf_length)
  have density: "i < binCount \<longrightarrow>
        bin_count (histogramOf vals minv maxv binCount ! i)
          = double_div
              (double_div
                 (Num (real (length (filter
                    (\<lambda>v. binIndex_of minv (binSize_of minv maxv binCount) v = Num (real i))
                    vals))))
                 (Num (real (length vals))))
              (binSize_of minv maxv binCount)"
    by (simp add: histogramOf_density countValues_nth)
  have total: "sum_list (countValues minv (binSize_of minv maxv binCount) binCount vals)
       = length (filter
           (\<lambda>v. js_ge (binIndex_of minv (binSize_of minv maxv binCount) v) (Num 0)
                \<and> js_lt (binIndex_of minv (binSize_of minv maxv binCount) v)
                     (Num (real binCount))) vals)"
    by (rule countValues_sum)
  have area: "vals \<noteq> [] \<and> length vals \<le> 2 ^ 53 \<and> binSize_of minv maxv binCount = Num w
        \<and> 1 / 2 ^ 500 \<le> w \<and> w \<le> 2 ^ 500
        \<and> (\<forall>v\<in>set vals. js_ge (binIndex_of minv (Num w) v) (Num 0)
                         \<and> js_lt (binIndex_of minv (Num w) v) (Num (real binCount))) \<longrightarrow>
        (\<exists>A. histogramArea (histogramOf vals minv maxv binCount)
                (binSize_of minv maxv binCount) = Num A
            \<and> \<bar>A - 1\<bar> \<le> 3 / 2 ^ 53)"
    using histogramArea_near_one by blast
  show ?thesis
    using size index inside outside len density total area by blast
qed

theorem histogram_counts_by_rounded_index_witness:
  "binSize_of 0 2 40 = Num (3602879701896397 / 2 ^ 56)
   \<and> binIndex_of 0 (binSize_of 0 2 40) (Num (1 / 2)) = Num 10
   \<and> countValue 0 (binSize_of 0 2 40) 40 (replicate 40 0) (Num (1 / 2))
       = (replicate 40 0)[10 := 1]
   \<and> binIndex_of 0 (binSize_of 0 2 40) (Num 2) = Num 40
   \<and> countValue 0 (binSize_of 0 2 40) 40 (replicate 40 0) (Num 2) = replicate 40 0
   \<and> length (histogramOf [Num (1 / 2), Num (3 / 2), Num 2] 0 2 40) = 40
   \<and> bin_count (histogramOf [Num (1 / 2), Num (3 / 2), Num 2] 0 2 40 ! 10) = Num (3752999689475413 / 2 ^ 49)
   \<and> sum_list (countValues 0 (binSize_of 0 2 40) 40 [Num (1 / 2), Num (3 / 2), Num 2]) = 2
   \<and> (\<exists>A. histogramArea (histogramOf [Num (1 / 2), Num (3 / 2)] 0 2 40) (binSize_of 0 2 40) = Num A
          \<and> \<bar>A - 1\<bar> \<le> 3 / 2 ^ 53)"
proof -
  note half = histogram_counts_by_rounded_index [where minv = 0 and maxv = 2 and binCount = 40
      and binSize = "binSize_of 0 2 40" and val = "Num (1 / 2)" and bins = "replicate 40 0"
      and vals = "[Num (1 / 2), Num (3 / 2), Num 2]" and i = 10 and w = "3602879701896397 / 2 ^ 56"]
  note two = histogram_counts_by_rounded_index [where minv = 0 and maxv = 2 and binCount = 40
      and binSize = "binSize_of 0 2 40" and val = "Num 2" and bins = "replicate 40 0"
      and vals = "[Num (1 / 2), Num (3 / 2)]" and i = 10 and w = "3602879701896397 / 2 ^ 56"]
  have bs: "binSize_of 0 2 40 = Num (3602879701896397 / 2 ^ 56)"
    by (rule original_binSize_value)
  have ih: "binIndex_of 0 (binSize_of 0 2 40) (Num (1 / 2)) = Num 10"
    by (simp only: original_binSize_value half_index)
  have it: "binIndex_of 0 (binSize_of 0 2 40) (Num (3 / 2)) = Num 30"
    by (simp only: original_binSize_value threehalves_index)
  have iw: "binIndex_of 0 (binSize_of 0 2 40) (Num 2) = Num 40"
    by (simp only: original_binSize_value two_index)
  have "js_ge (binIndex_of 0 (binSize_of 0 2 40) (Num (1 / 2))) (Num 0)
        \<and> js_lt (binIndex_of 0 (binSize_of 0 2 40) (Num (1 / 2))) (Num (real 40)) \<longrightarrow>
        (\<exists>j<40. binIndex_of 0 (binSize_of 0 2 40) (Num (1 / 2)) = Num (real j)
            \<and> countValue 0 (binSize_of 0 2 40) 40 (replicate 40 0) (Num (1 / 2))
                = (replicate 40 0)[j := replicate 40 0 ! j + 1])"
    using half by blast
  moreover have "js_ge (binIndex_of 0 (binSize_of 0 2 40) (Num (1 / 2))) (Num 0)
        \<and> js_lt (binIndex_of 0 (binSize_of 0 2 40) (Num (1 / 2))) (Num (real 40))"
    unfolding ih by (simp add: js_ge_def)
  ultimately obtain j where j: "j < 40"
      "binIndex_of 0 (binSize_of 0 2 40) (Num (1 / 2)) = Num (real j)"
      "countValue 0 (binSize_of 0 2 40) 40 (replicate 40 0) (Num (1 / 2))
         = (replicate 40 0)[j := replicate 40 0 ! j + 1]"
    by blast
  have "real j = 10" using j(2) ih by simp
  then have "j = 10" by linarith
  then have ch: "countValue 0 (binSize_of 0 2 40) 40 (replicate 40 0) (Num (1 / 2))
       = (replicate 40 0)[10 := 1]"
    using j(3) by simp
  have "\<not> (js_ge (Num 40) (Num 0) \<and> js_lt (Num 40) (Num (real 40)))" by simp
  then have cw: "countValue 0 (binSize_of 0 2 40) 40 (replicate 40 0) (Num 2) = replicate 40 0"
    using two unfolding iw by blast
  have len: "length (histogramOf [Num (1 / 2), Num (3 / 2), Num 2] 0 2 40) = 40"
    using half by blast
  have cnt: "length (filter (\<lambda>v. binIndex_of 0 (binSize_of 0 2 40) v = Num (real 10)) [Num (1 / 2), Num (3 / 2), Num 2])
      = 1"
    by (simp add: ih it iw)
  have dv: "double_div (double_div (Num (real 1)) (Num (real (length [Num (1 / 2), Num (3 / 2), Num 2]))))
       (binSize_of 0 2 40) = Num (3752999689475413 / 2 ^ 49)"
  proof -
    have "real (length [Num (1 / 2), Num (3 / 2), Num 2]) = 3" by simp
    then show ?thesis
      by (simp only: of_nat_1 original_binSize_value density_share density_value)
  qed
  have "(10::nat) < 40" by simp
  then have "bin_count (histogramOf [Num (1 / 2), Num (3 / 2), Num 2] 0 2 40 ! 10)
      = double_div
          (double_div
             (Num (real (length (filter
                (\<lambda>v. binIndex_of 0 (binSize_of 0 2 40) v = Num (real 10)) [Num (1 / 2), Num (3 / 2), Num 2]))))
             (Num (real (length [Num (1 / 2), Num (3 / 2), Num 2]))))
          (binSize_of 0 2 40)"
    using half by blast
  then have de: "bin_count (histogramOf [Num (1 / 2), Num (3 / 2), Num 2] 0 2 40 ! 10) = Num (3752999689475413 / 2 ^ 49)"
    unfolding cnt dv .
  have kept: "length (filter
           (\<lambda>v. js_ge (binIndex_of 0 (binSize_of 0 2 40) v) (Num 0)
                \<and> js_lt (binIndex_of 0 (binSize_of 0 2 40) v) (Num (real 40))) [Num (1 / 2), Num (3 / 2), Num 2]) = 2"
    by (simp add: ih it iw js_ge_def)
  have "sum_list (countValues 0 (binSize_of 0 2 40) 40 [Num (1 / 2), Num (3 / 2), Num 2])
      = length (filter
           (\<lambda>v. js_ge (binIndex_of 0 (binSize_of 0 2 40) v) (Num 0)
                \<and> js_lt (binIndex_of 0 (binSize_of 0 2 40) v) (Num (real 40))) [Num (1 / 2), Num (3 / 2), Num 2])"
    using half by blast
  then have total: "sum_list (countValues 0 (binSize_of 0 2 40) 40 [Num (1 / 2), Num (3 / 2), Num 2]) = 2"
    unfolding kept .
  have pa: "js_ge (binIndex_of 0 (Num (3602879701896397 / 2 ^ 56)) (Num (1 / 2))) (Num 0)
      \<and> js_lt (binIndex_of 0 (Num (3602879701896397 / 2 ^ 56)) (Num (1 / 2))) (Num (real 40))"
    unfolding half_index by (simp add: js_ge_def)
  have pb: "js_ge (binIndex_of 0 (Num (3602879701896397 / 2 ^ 56)) (Num (3 / 2))) (Num 0)
      \<and> js_lt (binIndex_of 0 (Num (3602879701896397 / 2 ^ 56)) (Num (3 / 2))) (Num (real 40))"
    unfolding threehalves_index by (simp add: js_ge_def)
  have hyp: "[Num (1 / 2), Num (3 / 2)] \<noteq> [] \<and> length [Num (1 / 2), Num (3 / 2)] \<le> 2 ^ 53 \<and> binSize_of 0 2 40 = Num (3602879701896397 / 2 ^ 56)
        \<and> 1 / 2 ^ 500 \<le> (3602879701896397 / 2 ^ 56 :: real) \<and> (3602879701896397 / 2 ^ 56 :: real) \<le> 2 ^ 500
        \<and> (\<forall>v\<in>set [Num (1 / 2), Num (3 / 2)]. js_ge (binIndex_of 0 (Num (3602879701896397 / 2 ^ 56)) v) (Num 0)
                         \<and> js_lt (binIndex_of 0 (Num (3602879701896397 / 2 ^ 56)) v) (Num (real 40)))"
    using pa pb bs by simp
  have area: "\<exists>A. histogramArea (histogramOf [Num (1 / 2), Num (3 / 2)] 0 2 40) (binSize_of 0 2 40) = Num A
          \<and> \<bar>A - 1\<bar> \<le> 3 / 2 ^ 53"
    using two hyp by blast
  show ?thesis
    using bs ih ch iw cw len de total area by blast
qed

section \<open>The distance in doubles and its one clamp\<close>

lemma dotProductLoop_double_foldl:
  "length a = length b \<Longrightarrow> i \<le> length a \<Longrightarrow>
   dotProductLoop_double i (map Num a) (map Num b) acc
     = foldl (\<lambda>dotProduct (x, y). double_add dotProduct (double_mul (Num x) (Num y))) acc
         (drop i (zip a b))"
proof (induction "length a - i" arbitrary: i acc)
  case 0
  then show ?case by (simp add: dotProductLoop_double.simps)
next
  case (Suc k)
  then have lt: "i < length a" by simp
  then have d: "drop i (zip a b) = (a ! i, b ! i) # drop (Suc i) (zip a b)"
    using Suc.prems(1) by (simp add: Cons_nth_drop_Suc [symmetric])
  have "dotProductLoop_double i (map Num a) (map Num b) acc =
        dotProductLoop_double (Suc i) (map Num a) (map Num b)
          (double_add acc (double_mul (Num (a ! i)) (Num (b ! i))))"
    using lt Suc.prems(1)
    by (subst dotProductLoop_double.simps) (simp add: js_index_def)
  also have "\<dots> = foldl (\<lambda>dotProduct (x, y). double_add dotProduct (double_mul (Num x) (Num y)))
         (double_add acc (double_mul (Num (a ! i)) (Num (b ! i)))) (drop (Suc i) (zip a b))"
    using Suc.hyps(2) lt Suc.prems(1) by (intro Suc.hyps(1)) simp_all
  finally show ?case by (simp add: d)
qed

lemma dotProductLoop_double_error:
  assumes "length a = length b" and "\<forall>x\<in>set a. \<bar>x\<bar> \<le> 1" and "\<forall>y\<in>set b. \<bar>y\<bar> \<le> 1"
    and "length a \<le> 2 ^ 53"
  shows "i \<le> length a \<Longrightarrow> \<bar>acc\<bar> \<le> real i \<Longrightarrow>
     \<exists>r. dotProductLoop_double i (map Num a) (map Num b) (Num acc) = Num r
         \<and> \<bar>r\<bar> \<le> real (length a)
         \<and> \<bar>r - (acc + (\<Sum>j = i..<length a. a ! j * b ! j))\<bar>
             \<le> real (length a - i) * real (length a + 1) / 2 ^ 53"
proof (induction "length a - i" arbitrary: i acc)
  case 0
  then have "i = length a" by simp
  then show ?case using 0 by (simp add: dotProductLoop_double.simps)
next
  case (Suc k)
  then have lt: "i < length a" by simp
  define p where "p = round_double (a ! i * b ! i)"
  define s where "s = round_double (acc + p)"
  have one: "(2::real) powr (- 1022) \<le> 1"
    using powr_mono [of "- 1022" 0 "2::real"] by simp
  have "\<bar>a ! i\<bar> \<le> 1" "\<bar>b ! i\<bar> \<le> 1"
    using lt assms(1,2,3) by simp_all
  then have "\<bar>a ! i\<bar> * \<bar>b ! i\<bar> \<le> 1 * 1"
    by (intro mult_mono) simp_all
  then have ab1: "\<bar>a ! i * b ! i\<bar> \<le> 1" by (simp add: abs_mult)
  then have ab: "\<bar>a ! i * b ! i\<bar> \<le> 2 ^ 0" by simp
  have p1: "js_round (Num (a ! i * b ! i)) = Num p" and p2: "\<bar>p\<bar> \<le> 1"
    unfolding p_def using js_round_Num [OF ab] by simp_all
  have pe: "\<bar>p - a ! i * b ! i\<bar> \<le> 1 / 2 ^ 53"
    unfolding p_def by (rule round_double_absolute [OF ab1 one])
  have sum: "\<bar>acc + p\<bar> \<le> real (Suc i)" using Suc.prems(2) p2 by simp
  have bound: "Suc i \<le> 2 ^ 53" using lt assms(4) by simp
  have s1: "js_round (Num (acc + p)) = Num s" and s2: "\<bar>s\<bar> \<le> real (Suc i)"
    unfolding s_def using js_round_nat_bound [OF sum bound] by simp_all
  have "(2::real) powr (- 1022) \<le> real (Suc i)" using one by simp
  then have se: "\<bar>s - (acc + p)\<bar> \<le> real (Suc i) / 2 ^ 53"
    unfolding s_def by (rule round_double_absolute [OF sum])
  have step: "dotProductLoop_double i (map Num a) (map Num b) (Num acc) =
        dotProductLoop_double (Suc i) (map Num a) (map Num b) (Num s)"
    using lt assms(1)
    by (subst dotProductLoop_double.simps)
       (simp add: js_index_def double_add_def double_mul_def p1 s1)
  have "\<exists>r. dotProductLoop_double (Suc i) (map Num a) (map Num b) (Num s) = Num r
         \<and> \<bar>r\<bar> \<le> real (length a)
         \<and> \<bar>r - (s + (\<Sum>j = Suc i..<length a. a ! j * b ! j))\<bar>
             \<le> real (length a - Suc i) * real (length a + 1) / 2 ^ 53"
    using Suc.hyps(2) lt s2 by (intro Suc.hyps(1)) simp_all
  then obtain r where r: "dotProductLoop_double (Suc i) (map Num a) (map Num b) (Num s) = Num r"
      "\<bar>r\<bar> \<le> real (length a)"
      "\<bar>r - (s + (\<Sum>j = Suc i..<length a. a ! j * b ! j))\<bar>
         \<le> real (length a - Suc i) * real (length a + 1) / 2 ^ 53"
    by blast
  have split: "(\<Sum>j = i..<length a. a ! j * b ! j)
      = a ! i * b ! i + (\<Sum>j = Suc i..<length a. a ! j * b ! j)"
    using lt by (simp add: sum.atLeast_Suc_lessThan)
  have "real (Suc i) + 1 \<le> real (length a + 1)" using lt by simp
  then have "real (Suc i) / 2 ^ 53 + 1 / 2 ^ 53 \<le> real (length a + 1) / 2 ^ 53"
    by (simp add: divide_simps)
  then have local: "\<bar>s - (acc + a ! i * b ! i)\<bar> \<le> real (length a + 1) / 2 ^ 53"
    using se pe by linarith
  have cnt: "real (length a - i) = real (length a - Suc i) + 1"
    using lt by (simp add: of_nat_diff)
  have "\<bar>r - (acc + (\<Sum>j = i..<length a. a ! j * b ! j))\<bar>
      \<le> real (length a - Suc i) * real (length a + 1) / 2 ^ 53 + real (length a + 1) / 2 ^ 53"
    unfolding split using r(3) local by linarith
  also have "\<dots> = real (length a - i) * real (length a + 1) / 2 ^ 53"
    unfolding cnt by (simp add: algebra_simps add_divide_distrib)
  finally show ?case using step r(1,2) by simp
qed

lemma clamp_lipschitz:
  fixes x y :: real
  shows "\<bar>max 0 (min 2 x) - max 0 (min 2 y)\<bar> \<le> \<bar>x - y\<bar>"
  by (simp add: max_def min_def abs_if)

lemma calculateCosineDistance_double_error:
  assumes "length a = length b" and "length a \<le> 2 ^ 53"
    and "\<forall>x\<in>set a. \<bar>x\<bar> \<le> 1" and "\<forall>y\<in>set b. \<bar>y\<bar> \<le> 1"
  shows "\<exists>c. clampDistance (calculateCosineDistance_double (map Num a) (map Num b)) = Num c
           \<and> 0 \<le> c \<and> c \<le> 2
           \<and> \<bar>c - max 0 (min 2 (1 - (\<Sum>j = 0..<length a. a ! j * b ! j)))\<bar>
               \<le> (real (length a) + 1)\<^sup>2 / 2 ^ 53"
proof -
  let ?n = "real (length a)"
  let ?dot = "\<Sum>j = 0..<length a. a ! j * b ! j"
  have "\<exists>r. dotProductLoop_double 0 (map Num a) (map Num b) (Num 0) = Num r
         \<and> \<bar>r\<bar> \<le> real (length a)
         \<and> \<bar>r - (0 + (\<Sum>j = 0..<length a. a ! j * b ! j))\<bar>
             \<le> real (length a - 0) * real (length a + 1) / 2 ^ 53"
    by (rule dotProductLoop_double_error [OF assms(1,3,4,2)]) simp_all
  then obtain r where r0: "dotProductLoop_double 0 (map Num a) (map Num b) (Num 0) = Num r"
      "\<bar>r\<bar> \<le> real (length a)"
      "\<bar>r - (0 + (\<Sum>j = 0..<length a. a ! j * b ! j))\<bar>
         \<le> real (length a - 0) * real (length a + 1) / 2 ^ 53"
    by blast
  have r: "dotProductLoop_double 0 (map Num a) (map Num b) (Num 0) = Num r"
      "\<bar>r\<bar> \<le> ?n" "\<bar>r - ?dot\<bar> \<le> ?n * (?n + 1) / 2 ^ 53"
    using r0 by (simp_all add: add.commute)
  have n53: "?n \<le> 2 ^ 53"
    using assms(2) by (metis of_nat_le_iff of_nat_numeral of_nat_power)
  have one: "(2::real) powr (- 1022) \<le> 1"
    using powr_mono [of "- 1022" 0 "2::real"] by simp
  have b: "\<bar>1 - r\<bar> \<le> ?n + 1" using r(2) by linarith
  then have "\<bar>1 - r\<bar> \<le> 2 ^ 54" using n53 by simp
  then have v: "js_round (Num (1 - r)) = Num (round_double (1 - r))"
    by (rule js_round_Num(1)) simp
  have "(2::real) powr (- 1022) \<le> ?n + 1" using one by simp
  then have e: "\<bar>round_double (1 - r) - (1 - r)\<bar> \<le> (?n + 1) / 2 ^ 53"
    by (rule round_double_absolute [OF b])
  have d: "calculateCosineDistance_double (map Num a) (map Num b) = Num (round_double (1 - r))"
    by (simp add: calculateCosineDistance_double_def r(1) double_sub_def v)
  have "\<bar>round_double (1 - r) - (1 - ?dot)\<bar> \<le> ?n * (?n + 1) / 2 ^ 53 + (?n + 1) / 2 ^ 53"
    using e r(3) by linarith
  also have "\<dots> = (?n + 1)\<^sup>2 / 2 ^ 53"
    by (simp add: power2_eq_square algebra_simps add_divide_distrib)
  finally have "\<bar>max 0 (min 2 (round_double (1 - r))) - max 0 (min 2 (1 - ?dot))\<bar>
      \<le> (?n + 1)\<^sup>2 / 2 ^ 53"
    using clamp_lipschitz [of "round_double (1 - r)" "1 - ?dot"] by linarith
  then show ?thesis
    by (simp add: d clampDistance_Num)
qed

lemma calculateCosineDistance_double_foldl:
  assumes "length a = length b"
  shows "calculateCosineDistance_double (map Num a) (map Num b)
     = double_sub (Num 1)
         (foldl (\<lambda>dotProduct (x, y). double_add dotProduct (double_mul (Num x) (Num y)))
            (Num 0) (zip a b))"
  using dotProductLoop_double_foldl [OF assms, of 0 "Num 0"]
  by (simp add: calculateCosineDistance_double_def)

text \<open>
  The products, the partial sums and the final subtraction of the examples below,
  each with its rounding.
\<close>

lemma drift_product_0: "double_mul (Num (- (6369051672525773 / 2 ^ 53))) (Num (- (6369051672525773 / 2 ^ 53))) = Num (4503599627370497 / 2 ^ 53)"
proof -
  have "round_half_even (((- (6369051672525773 / 2 ^ 53)) * (- (6369051672525773 / 2 ^ 53))) * 2 ^ 53) = 4503599627370497"
    by (rule rhe_between) simp_all
  then have "round_double ((- (6369051672525773 / 2 ^ 53)) * (- (6369051672525773 / 2 ^ 53))) = 4503599627370497 / 2 ^ 53"
    by (subst round_double_at_neg [of 53]) simp_all
  then have r: "round_double ((- (6369051672525773 / 2 ^ 53)) * (- (6369051672525773 / 2 ^ 53))) = (4503599627370497 / 2 ^ 53)"
    by simp
  show ?thesis
    by (rule double_mul_eval [OF r]) simp
qed

lemma drift_sum_0: "double_add (Num 0) (Num (4503599627370497 / 2 ^ 53)) = Num (4503599627370497 / 2 ^ 53)"
proof -
  have "round_half_even ((0 + (4503599627370497 / 2 ^ 53)) * 2 ^ 53) = 4503599627370497"
    by (rule rhe_between) simp_all
  then have "round_double (0 + (4503599627370497 / 2 ^ 53)) = 4503599627370497 / 2 ^ 53"
    by (subst round_double_at_neg [of 53]) simp_all
  then have r: "round_double (0 + (4503599627370497 / 2 ^ 53)) = (4503599627370497 / 2 ^ 53)"
    by simp
  show ?thesis
    by (rule double_add_eval [OF r]) simp
qed

lemma drift_product_1: "double_mul (Num (- (6369051672525773 / 2 ^ 53))) (Num (- (6369051672525773 / 2 ^ 53))) = Num (4503599627370497 / 2 ^ 53)"
proof -
  have "round_half_even (((- (6369051672525773 / 2 ^ 53)) * (- (6369051672525773 / 2 ^ 53))) * 2 ^ 53) = 4503599627370497"
    by (rule rhe_between) simp_all
  then have "round_double ((- (6369051672525773 / 2 ^ 53)) * (- (6369051672525773 / 2 ^ 53))) = 4503599627370497 / 2 ^ 53"
    by (subst round_double_at_neg [of 53]) simp_all
  then have r: "round_double ((- (6369051672525773 / 2 ^ 53)) * (- (6369051672525773 / 2 ^ 53))) = (4503599627370497 / 2 ^ 53)"
    by simp
  show ?thesis
    by (rule double_mul_eval [OF r]) simp
qed

lemma drift_sum_1: "double_add (Num (4503599627370497 / 2 ^ 53)) (Num (4503599627370497 / 2 ^ 53)) = Num (4503599627370497 / 2 ^ 52)"
proof -
  have "round_half_even (((4503599627370497 / 2 ^ 53) + (4503599627370497 / 2 ^ 53)) * 2 ^ 52) = 4503599627370497"
    by (rule rhe_between) simp_all
  then have "round_double ((4503599627370497 / 2 ^ 53) + (4503599627370497 / 2 ^ 53)) = 4503599627370497 / 2 ^ 52"
    by (subst round_double_at_neg [of 52]) simp_all
  then have r: "round_double ((4503599627370497 / 2 ^ 53) + (4503599627370497 / 2 ^ 53)) = (4503599627370497 / 2 ^ 52)"
    by simp
  show ?thesis
    by (rule double_add_eval [OF r]) simp
qed

lemma drift_distance: "double_sub (Num 1) (Num (4503599627370497 / 2 ^ 52)) = Num (- (1 / 2 ^ 52))"
proof -
  have "round_half_even ((1 - (4503599627370497 / 2 ^ 52)) * 2 ^ 104) = -4503599627370496"
    by (rule rhe_between) simp_all
  then have "round_double (1 - (4503599627370497 / 2 ^ 52)) = -4503599627370496 / 2 ^ 104"
    by (subst round_double_at_neg [of 104]) simp_all
  then have r: "round_double (1 - (4503599627370497 / 2 ^ 52)) = (- (1 / 2 ^ 52))"
    by simp
  show ?thesis
    by (rule double_sub_eval [OF r]) simp
qed

lemma cancel_product_0: "double_mul (Num 10000000000000000) (Num 1) = Num 10000000000000000"
proof -
  have "round_half_even ((10000000000000000 * 1) / 2 ^ 1) = 5000000000000000"
    by (rule rhe_between) simp_all
  then have "round_double (10000000000000000 * 1) = 5000000000000000 * 2 ^ 1"
    by (subst round_double_at_pos [of 1]) simp_all
  then have r: "round_double (10000000000000000 * 1) = 10000000000000000"
    by simp
  show ?thesis
    by (rule double_mul_eval [OF r]) simp
qed

lemma cancel_sum_0: "double_add (Num 0) (Num 10000000000000000) = Num 10000000000000000"
proof -
  have "round_half_even ((0 + 10000000000000000) / 2 ^ 1) = 5000000000000000"
    by (rule rhe_between) simp_all
  then have "round_double (0 + 10000000000000000) = 5000000000000000 * 2 ^ 1"
    by (subst round_double_at_pos [of 1]) simp_all
  then have r: "round_double (0 + 10000000000000000) = 10000000000000000"
    by simp
  show ?thesis
    by (rule double_add_eval [OF r]) simp
qed

lemma cancel_product_1: "double_mul (Num 1) (Num 1) = Num 1"
proof -
  have "round_half_even ((1 * 1) * 2 ^ 52) = 4503599627370496"
    by (rule rhe_between) simp_all
  then have "round_double (1 * 1) = 4503599627370496 / 2 ^ 52"
    by (subst round_double_at_neg [of 52]) simp_all
  then have r: "round_double (1 * 1) = 1"
    by simp
  show ?thesis
    by (rule double_mul_eval [OF r]) simp
qed

lemma cancel_sum_1: "double_add (Num 10000000000000000) (Num 1) = Num 10000000000000000"
proof -
  have "round_half_even ((10000000000000000 + 1) / 2 ^ 1) = 5000000000000000"
    using rhe_tie [of "(10000000000000000 + 1) / 2 ^ 1" 5000000000000000] by simp
  then have "round_double (10000000000000000 + 1) = 5000000000000000 * 2 ^ 1"
    by (subst round_double_at_pos [of 1]) simp_all
  then have r: "round_double (10000000000000000 + 1) = 10000000000000000"
    by simp
  show ?thesis
    by (rule double_add_eval [OF r]) simp
qed

lemma cancel_product_2: "double_mul (Num (- 10000000000000000)) (Num 1) = Num (- 10000000000000000)"
proof -
  have "round_half_even (((- 10000000000000000) * 1) / 2 ^ 1) = -5000000000000000"
    by (rule rhe_between) simp_all
  then have "round_double ((- 10000000000000000) * 1) = -5000000000000000 * 2 ^ 1"
    by (subst round_double_at_pos [of 1]) simp_all
  then have r: "round_double ((- 10000000000000000) * 1) = (- 10000000000000000)"
    by simp
  show ?thesis
    by (rule double_mul_eval [OF r]) simp
qed

lemma cancel_sum_2: "double_add (Num 10000000000000000) (Num (- 10000000000000000)) = Num 0"
proof -
  have r: "round_double (10000000000000000 + (- 10000000000000000)) = 0"
    by (simp add: round_double_def)
  show ?thesis
    by (rule double_add_eval [OF r]) simp
qed

lemma cancel_distance: "double_sub (Num 1) (Num 0) = Num 1"
proof -
  have "round_half_even ((1 - 0) * 2 ^ 52) = 4503599627370496"
    by (rule rhe_between) simp_all
  then have "round_double (1 - 0) = 4503599627370496 / 2 ^ 52"
    by (subst round_double_at_neg [of 52]) simp_all
  then have r: "round_double (1 - 0) = 1"
    by simp
  show ?thesis
    by (rule double_sub_eval [OF r]) simp
qed

lemma drift_distance_value:
  "calculateCosineDistance_double
     (map Num [(- (6369051672525773 / 2 ^ 53)), (- (6369051672525773 / 2 ^ 53))])
     (map Num [(- (6369051672525773 / 2 ^ 53)), (- (6369051672525773 / 2 ^ 53))])
   = Num (- (1 / 2 ^ 52))"
  by (subst calculateCosineDistance_double_foldl)
     (simp_all only: list.size zip_Cons_Cons zip_Nil foldl_Cons foldl_Nil prod.case
        drift_product_0 drift_sum_0 drift_product_1 drift_sum_1 drift_distance)

lemma cancel_distance_value:
  "calculateCosineDistance_double (map Num [10000000000000000, 1, (- 10000000000000000)])
     (map Num [1, 1, 1]) = Num 1"
  by (subst calculateCosineDistance_double_foldl)
     (simp_all only: list.size zip_Cons_Cons zip_Nil foldl_Cons foldl_Nil prod.case
        cancel_product_0 cancel_sum_0 cancel_product_1 cancel_sum_1 cancel_product_2
        cancel_sum_2 cancel_distance)

lemma overflow_product_plus: "double_mul (Num (2 ^ 512)) (Num (2 ^ 512)) = PosInf"
proof -
  have "(2::real) ^ 512 * 2 ^ 512 = 2 ^ 1024" by simp
  then have "js_mul (Num (2 ^ 512)) (Num (2 ^ 512)) = Num (2 ^ 1024)" by simp
  moreover have "js_round (Num (2 ^ 1024)) = PosInf"
    by (rule js_round_overflow) simp
  ultimately show ?thesis by (simp only: double_mul_def)
qed

lemma overflow_product_minus: "double_mul (Num (2 ^ 512)) (Num (- (2 ^ 512))) = NegInf"
proof -
  have "(2::real) ^ 512 * - (2 ^ 512) = - (2 ^ 1024)" by simp
  then have "js_mul (Num (2 ^ 512)) (Num (- (2 ^ 512))) = Num (- (2 ^ 1024))" by simp
  moreover have "js_round (Num (- (2 ^ 1024))) = NegInf"
    by (rule js_round_overflow) simp
  ultimately show ?thesis by (simp only: double_mul_def)
qed

lemma overflow_distance_value:
  "calculateCosineDistance_double (map Num [2 ^ 512, 2 ^ 512]) (map Num [2 ^ 512, - (2 ^ 512)])
     = NaN"
proof -
  have a: "double_add (Num 0) PosInf = PosInf" "double_add PosInf NegInf = NaN"
      "double_sub (Num 1) NaN = NaN"
    by (simp_all add: double_add_def double_sub_def js_round_def js_sub_def)
  show ?thesis
    by (subst calculateCosineDistance_double_foldl)
       (simp_all only: list.size zip_Cons_Cons zip_Nil foldl_Cons foldl_Nil prod.case
          overflow_product_plus overflow_product_minus a)
qed

lemma clampDistance_NaN_iff: "(clampDistance v = NaN) = (v = NaN)"
  by (cases v) (simp_all add: clampDistance_def js_min_def js_max_def)

text \<open>
  Claim C1, as stated, fails in the arithmetic of the code, where the dot product is
  accumulated in doubles. For the equal-length vectors \<open>[2 ^ 512, 2 ^ 512]\<close> and
  \<open>[2 ^ 512, - 2 ^ 512]\<close> the two products overflow to \<open>+Infinity\<close> and \<open>-Infinity\<close>,
  their sum is \<open>NaN\<close>, and the clamp returns \<open>NaN\<close>, which is not in \<open>[0, 2]\<close>. For
  \<open>[10 ^ 16, 1, - 10 ^ 16]\<close> and \<open>[1, 1, 1]\<close> the sum \<open>10 ^ 16 + 1\<close> rounds to \<open>10 ^ 16\<close>,
  so the code returns 1, where 1 minus the dot product (which is 1) is 0.
\<close>

theorem rounded_dot_product_counterexample:
  "length [2 ^ 512, 2 ^ 512 :: real] = length [2 ^ 512, - (2 ^ 512) :: real]
   \<and> calculateCosineDistance_double (map Num [2 ^ 512, 2 ^ 512])
         (map Num [2 ^ 512, - (2 ^ 512)]) = NaN
   \<and> clampDistance (calculateCosineDistance_double (map Num [2 ^ 512, 2 ^ 512])
         (map Num [2 ^ 512, - (2 ^ 512)])) = NaN
   \<and> \<not> js_ge (clampDistance (calculateCosineDistance_double (map Num [2 ^ 512, 2 ^ 512])
         (map Num [2 ^ 512, - (2 ^ 512)]))) (Num 0)
   \<and> length [10000000000000000, 1, - 10000000000000000 :: real] = length [1, 1, 1 :: real]
   \<and> clampDistance (calculateCosineDistance_double
         (map Num [10000000000000000, 1, - 10000000000000000]) (map Num [1, 1, 1])) = Num 1
   \<and> (\<Sum>j = 0..<3. [10000000000000000, 1, - 10000000000000000] ! j * [1, 1, 1] ! j) = (1::real)
   \<and> max 0 (min 2 (1 - 1)) = (0::real)"
proof -
  have a: "clampDistance NaN = NaN" "\<not> js_ge NaN (Num 0)" "clampDistance (Num 1) = Num 1"
    by (simp_all add: clampDistance_NaN_iff js_ge_def clampDistance_Num)
  have s: "(\<Sum>j = 0..<3. [10000000000000000, 1, - 10000000000000000] ! j * [1, 1, 1] ! j)
      = (1::real)"
    by (simp add: numeral_3_eq_3)
  show ?thesis
    unfolding overflow_distance_value cancel_distance_value using a s by simp
qed

text \<open>
  Claim C1, amended. For vectors of equal length \<open>calculateCosineDistance\<close> returns the
  rounding of 1 minus the dot product as the loop accumulates it in doubles, from left
  to right, every product and every partial sum rounded: it can differ from the exact
  dot product, and it is \<open>NaN\<close> when products overflow to infinities of both signs. The
  next statement of the sampling loop clamps that result, and this clamp is the only
  place where a distance is forced into range: the stored \<open>originalDistance\<close> is the
  clamped value, the normalized distance is computed from it and stored as it is, and
  the histogram leaves every bin unchanged for a value whose bin index fails the
  range test, so such a value is dropped, not moved into range. The clamped value is
  \<open>max 0 (min 2 r)\<close> for a computed distance \<open>r\<close>; it lies in \<open>[0, 2]\<close> or is \<open>NaN\<close>, which
  it is only when the computed distance is \<open>NaN\<close>. Whenever no component of the two
  vectors exceeds 1 in absolute value and their length \<open>n\<close> is at most \<open>2 ^ 53\<close>, as for
  the normalized vectors of the sampler, it lies in \<open>[0, 2]\<close> and differs from
  \<open>max 0 (min 2 (1 - dot))\<close>, for the exact dot product, by at most
  \<open>(n + 1)\<^sup>2 / 2 ^ 53\<close>.
\<close>

theorem clamped_double_distance:
  "(length a = length b \<longrightarrow>
      calculateCosineDistance_double (map Num a) (map Num b)
        = double_sub (Num 1)
            (foldl (\<lambda>dotProduct (x, y). double_add dotProduct (double_mul (Num x) (Num y)))
               (Num 0) (zip a b)))
   \<and> originalDistance (storedSample d vector1 vector2)
       = clampDistance (calculateCosineDistance_double vector1 vector2)
   \<and> normalizedDistance (storedSample d vector1 vector2)
       = normalizedDistance_double
           (clampDistance (calculateCosineDistance_double vector1 vector2)) d
   \<and> (\<not> (js_ge (binIndex_of minv binSize val) (Num 0)
            \<and> js_lt (binIndex_of minv binSize val) (Num (real binCount)))
        \<longrightarrow> countValue minv binSize binCount bins val = bins)
   \<and> (calculateCosineDistance_double vector1 vector2 = Num r \<longrightarrow>
        clampDistance (calculateCosineDistance_double vector1 vector2) = Num (max 0 (min 2 r)))
   \<and> (clampDistance (calculateCosineDistance_double vector1 vector2) = NaN
        \<or> (\<exists>c. clampDistance (calculateCosineDistance_double vector1 vector2) = Num c
                \<and> 0 \<le> c \<and> c \<le> 2))
   \<and> (clampDistance (calculateCosineDistance_double vector1 vector2) = NaN)
       = (calculateCosineDistance_double vector1 vector2 = NaN)
   \<and> (length a = length b \<and> length a \<le> 2 ^ 53
        \<and> (\<forall>x\<in>set a. \<bar>x\<bar> \<le> 1) \<and> (\<forall>y\<in>set b. \<bar>y\<bar> \<le> 1) \<longrightarrow>
        (\<exists>c. clampDistance (calculateCosineDistance_double (map Num a) (map Num b)) = Num c
             \<and> 0 \<le> c \<and> c \<le> 2
             \<and> \<bar>c - max 0 (min 2 (1 - (\<Sum>j = 0..<length a. a ! j * b ! j)))\<bar>
                 \<le> (real (length a) + 1)\<^sup>2 / 2 ^ 53))"
proof -
  have loop: "length a = length b \<longrightarrow>
      calculateCosineDistance_double (map Num a) (map Num b)
        = double_sub (Num 1)
            (foldl (\<lambda>dotProduct (x, y). double_add dotProduct (double_mul (Num x) (Num y)))
               (Num 0) (zip a b))"
    using calculateCosineDistance_double_foldl by blast
  have stored: "originalDistance (storedSample d vector1 vector2)
       = clampDistance (calculateCosineDistance_double vector1 vector2)"
      "normalizedDistance (storedSample d vector1 vector2)
       = normalizedDistance_double
           (clampDistance (calculateCosineDistance_double vector1 vector2)) d"
    by (simp_all add: storedSample_def Let_def)
  have dropped: "\<not> (js_ge (binIndex_of minv binSize val) (Num 0)
            \<and> js_lt (binIndex_of minv binSize val) (Num (real binCount)))
        \<longrightarrow> countValue minv binSize binCount bins val = bins"
    using countValue_outside by blast
  have clamp: "calculateCosineDistance_double vector1 vector2 = Num r \<longrightarrow>
        clampDistance (calculateCosineDistance_double vector1 vector2) = Num (max 0 (min 2 r))"
    by (simp add: clampDistance_Num)
  have range: "clampDistance (calculateCosineDistance_double vector1 vector2) = NaN
        \<or> (\<exists>c. clampDistance (calculateCosineDistance_double vector1 vector2) = Num c
                \<and> 0 \<le> c \<and> c \<le> 2)"
    by (rule clampDistance_range)
  have nan: "(clampDistance (calculateCosineDistance_double vector1 vector2) = NaN)
       = (calculateCosineDistance_double vector1 vector2 = NaN)"
    by (rule clampDistance_NaN_iff)
  have bounded: "length a = length b \<and> length a \<le> 2 ^ 53
        \<and> (\<forall>x\<in>set a. \<bar>x\<bar> \<le> 1) \<and> (\<forall>y\<in>set b. \<bar>y\<bar> \<le> 1) \<longrightarrow>
        (\<exists>c. clampDistance (calculateCosineDistance_double (map Num a) (map Num b)) = Num c
             \<and> 0 \<le> c \<and> c \<le> 2
             \<and> \<bar>c - max 0 (min 2 (1 - (\<Sum>j = 0..<length a. a ! j * b ! j)))\<bar>
                 \<le> (real (length a) + 1)\<^sup>2 / 2 ^ 53)"
    using calculateCosineDistance_double_error by blast
  show ?thesis
    using loop stored dropped clamp range nan bounded by blast
qed

theorem clamped_double_distance_witness:
  "length [- (6369051672525773 / 2 ^ 53), - (6369051672525773 / 2 ^ 53) :: real] = length [- (6369051672525773 / 2 ^ 53), - (6369051672525773 / 2 ^ 53) :: real]
   \<and> length [- (6369051672525773 / 2 ^ 53), - (6369051672525773 / 2 ^ 53) :: real] \<le> 2 ^ 53
   \<and> \<bar>- (6369051672525773 / 2 ^ 53)\<bar> \<le> (1::real)
   \<and> calculateCosineDistance_double (map Num [- (6369051672525773 / 2 ^ 53), - (6369051672525773 / 2 ^ 53) :: real]) (map Num [- (6369051672525773 / 2 ^ 53), - (6369051672525773 / 2 ^ 53) :: real]) = Num (- (1 / 2 ^ 52))
   \<and> double_sub (Num 1)
        (foldl (\<lambda>dotProduct (x, y). double_add dotProduct (double_mul (Num x) (Num y)))
           (Num 0) (zip [- (6369051672525773 / 2 ^ 53), - (6369051672525773 / 2 ^ 53) :: real] [- (6369051672525773 / 2 ^ 53), - (6369051672525773 / 2 ^ 53) :: real])) = Num (- (1 / 2 ^ 52))
   \<and> clampDistance (calculateCosineDistance_double (map Num [- (6369051672525773 / 2 ^ 53), - (6369051672525773 / 2 ^ 53) :: real]) (map Num [- (6369051672525773 / 2 ^ 53), - (6369051672525773 / 2 ^ 53) :: real])) = Num 0
   \<and> originalDistance (storedSample 2 (map Num [- (6369051672525773 / 2 ^ 53), - (6369051672525773 / 2 ^ 53) :: real]) (map Num [- (6369051672525773 / 2 ^ 53), - (6369051672525773 / 2 ^ 53) :: real])) = Num 0
   \<and> normalizedDistance (storedSample 2 (map Num [- (6369051672525773 / 2 ^ 53), - (6369051672525773 / 2 ^ 53) :: real]) (map Num [- (6369051672525773 / 2 ^ 53), - (6369051672525773 / 2 ^ 53) :: real])) = Num (- (1262494470354541 / 2 ^ 50))
   \<and> (\<exists>c. clampDistance (calculateCosineDistance_double (map Num [- (6369051672525773 / 2 ^ 53), - (6369051672525773 / 2 ^ 53) :: real]) (map Num [- (6369051672525773 / 2 ^ 53), - (6369051672525773 / 2 ^ 53) :: real])) = Num c \<and> 0 \<le> c \<and> c \<le> 2
          \<and> \<bar>c - max 0 (min 2 (1 - (\<Sum>j = 0..<length [- (6369051672525773 / 2 ^ 53), - (6369051672525773 / 2 ^ 53) :: real].
                  [- (6369051672525773 / 2 ^ 53), - (6369051672525773 / 2 ^ 53) :: real] ! j * [- (6369051672525773 / 2 ^ 53), - (6369051672525773 / 2 ^ 53) :: real] ! j)))\<bar>
              \<le> (real (length [- (6369051672525773 / 2 ^ 53), - (6369051672525773 / 2 ^ 53) :: real]) + 1)\<^sup>2 / 2 ^ 53)
   \<and> normalizedDistance_double (Num 2) 16 = Num 5
   \<and> binIndex_of (- 2) (binSize_of (- 2) 4 40) (Num 5) = Num 46
   \<and> countValue (- 2) (binSize_of (- 2) 4 40) 40 (replicate 40 0) (Num 5) = replicate 40 0"
proof -
  note inst = clamped_double_distance [where a = "[- (6369051672525773 / 2 ^ 53), - (6369051672525773 / 2 ^ 53) :: real]" and b = "[- (6369051672525773 / 2 ^ 53), - (6369051672525773 / 2 ^ 53) :: real]" and d = 2
      and ?vector1.0 = "(map Num [- (6369051672525773 / 2 ^ 53), - (6369051672525773 / 2 ^ 53) :: real])" and ?vector2.0 = "(map Num [- (6369051672525773 / 2 ^ 53), - (6369051672525773 / 2 ^ 53) :: real])" and r = "- (1 / 2 ^ 52)"
      and minv = "- 2" and binSize = "binSize_of (- 2) 4 40" and val = "Num 5"
      and binCount = 40 and bins = "replicate 40 0"]
  have h: "length [- (6369051672525773 / 2 ^ 53), - (6369051672525773 / 2 ^ 53) :: real] = length [- (6369051672525773 / 2 ^ 53), - (6369051672525773 / 2 ^ 53) :: real]"
      "length [- (6369051672525773 / 2 ^ 53), - (6369051672525773 / 2 ^ 53) :: real] \<le> 2 ^ 53"
      "\<bar>- (6369051672525773 / 2 ^ 53)\<bar> \<le> (1::real)"
    by simp_all
  have hs: "length [- (6369051672525773 / 2 ^ 53), - (6369051672525773 / 2 ^ 53) :: real] = length [- (6369051672525773 / 2 ^ 53), - (6369051672525773 / 2 ^ 53) :: real] \<and> length [- (6369051672525773 / 2 ^ 53), - (6369051672525773 / 2 ^ 53) :: real] \<le> 2 ^ 53
      \<and> (\<forall>x\<in>set [- (6369051672525773 / 2 ^ 53), - (6369051672525773 / 2 ^ 53) :: real]. \<bar>x\<bar> \<le> 1) \<and> (\<forall>y\<in>set [- (6369051672525773 / 2 ^ 53), - (6369051672525773 / 2 ^ 53) :: real]. \<bar>y\<bar> \<le> 1)"
    by simp
  have v: "calculateCosineDistance_double (map Num [- (6369051672525773 / 2 ^ 53), - (6369051672525773 / 2 ^ 53) :: real]) (map Num [- (6369051672525773 / 2 ^ 53), - (6369051672525773 / 2 ^ 53) :: real]) = Num (- (1 / 2 ^ 52))"
    by (rule drift_distance_value)
  have c: "clampDistance (Num (- (1 / 2 ^ 52))) = Num 0"
    by (simp add: clampDistance_Num)
  have f: "double_sub (Num 1)
        (foldl (\<lambda>dotProduct (x, y). double_add dotProduct (double_mul (Num x) (Num y)))
           (Num 0) (zip [- (6369051672525773 / 2 ^ 53), - (6369051672525773 / 2 ^ 53) :: real] [- (6369051672525773 / 2 ^ 53), - (6369051672525773 / 2 ^ 53) :: real])) = Num (- (1 / 2 ^ 52))"
    using inst h(1) v by simp
  have o: "originalDistance (storedSample 2 (map Num [- (6369051672525773 / 2 ^ 53), - (6369051672525773 / 2 ^ 53) :: real]) (map Num [- (6369051672525773 / 2 ^ 53), - (6369051672525773 / 2 ^ 53) :: real])) = Num 0"
    using inst unfolding v c by blast
  have n: "normalizedDistance (storedSample 2 (map Num [- (6369051672525773 / 2 ^ 53), - (6369051672525773 / 2 ^ 53) :: real]) (map Num [- (6369051672525773 / 2 ^ 53), - (6369051672525773 / 2 ^ 53) :: real])) = Num (- (1262494470354541 / 2 ^ 50))"
    using inst unfolding v c same_vector_value by blast
  have b: "\<exists>c. clampDistance (calculateCosineDistance_double (map Num [- (6369051672525773 / 2 ^ 53), - (6369051672525773 / 2 ^ 53) :: real]) (map Num [- (6369051672525773 / 2 ^ 53), - (6369051672525773 / 2 ^ 53) :: real])) = Num c \<and> 0 \<le> c \<and> c \<le> 2
          \<and> \<bar>c - max 0 (min 2 (1 - (\<Sum>j = 0..<length [- (6369051672525773 / 2 ^ 53), - (6369051672525773 / 2 ^ 53) :: real].
                  [- (6369051672525773 / 2 ^ 53), - (6369051672525773 / 2 ^ 53) :: real] ! j * [- (6369051672525773 / 2 ^ 53), - (6369051672525773 / 2 ^ 53) :: real] ! j)))\<bar>
              \<le> (real (length [- (6369051672525773 / 2 ^ 53), - (6369051672525773 / 2 ^ 53) :: real]) + 1)\<^sup>2 / 2 ^ 53"
    using inst hs by blast
  have idx: "binIndex_of (- 2) (binSize_of (- 2) 4 40) (Num 5) = Num 46"
    by (simp only: normalized_binSize_value five_index)
  have out: "\<not> (js_ge (Num 46) (Num 0) \<and> js_lt (Num 46) (Num (real 40)))"
    by simp
  have dr: "countValue (- 2) (binSize_of (- 2) 4 40) 40 (replicate 40 0) (Num 5) = replicate 40 0"
    using inst out unfolding idx by blast
  show ?thesis
    using h v f o n b idx dr opposite_vector_value unfolding v c by blast
qed

end
